theory Spec2Isabelle
  imports Main "HOL-Library.Word"
begin

section \<open>JavaScript values\<close>

text \<open>
  A JavaScript string is a sequence of UTF-16 code units. Literals of the source are
  written with \<open>js\<close>, which maps each ASCII character to its code unit.
\<close>

type_synonym jschar = "16 word"
type_synonym jsstring = "jschar list"

definition js :: "string \<Rightarrow> jsstring" where
  "js s = map (\<lambda>c. of_nat (of_char c)) s"

text \<open>
  The values that the fields of a response, the page cursor and the parsed result file
  can hold. An object is the list of its own properties in enumeration order. Number
  values are outside the modelled input type.
\<close>

datatype jsval =
    Undefined
  | Null
  | Bool bool
  | Str jsstring
  | Arr "jsval list"
  | Obj "(jsstring \<times> jsval) list"

text \<open>ToBoolean: what \<open>if (v)\<close> and \<open>while (v)\<close> test.\<close>

fun truthy :: "jsval \<Rightarrow> bool" where
  "truthy Undefined = False"
| "truthy Null = False"
| "truthy (Bool b) = b"
| "truthy (Str s) = (s \<noteq> [])"
| "truthy (Arr _) = True"
| "truthy (Obj _) = True"

text \<open>
  Errors are values. \<open>Error msg\<close> is \<open>new Error(msg)\<close> of the source; \<open>TypeError\<close> is
  raised by the engine when a property of \<open>undefined\<close> or \<open>null\<close> is read or a
  non-function is called (its message is the engine's and is not modelled);
  \<open>Rejected\<close> is a rejection that comes from outside the program: \<open>fetch\<close>,
  \<open>response.json()\<close>, the file system.
\<close>

datatype js_error =
    Error jsstring
  | TypeError
  | SyntaxError
  | Rejected jsstring

section \<open>Normalization of a tweet's text\<close>

text \<open>
  \<open>String.prototype.trim\<close> strips WhiteSpace and LineTerminator code points from both
  ends: TAB, LF, VT, FF, CR, SP, NBSP, U+1680, U+2000 to U+200A, U+2028, U+2029, U+202F,
  U+205F, U+3000 and U+FEFF.
\<close>

definition isWhiteSpace :: "jschar \<Rightarrow> bool" where
  "isWhiteSpace c =
     (c = 0x09 \<or> c = 0x0A \<or> c = 0x0B \<or> c = 0x0C \<or> c = 0x0D \<or> c = 0x20 \<or> c = 0xA0 \<or>
      c = 0x1680 \<or> (0x2000 \<le> c \<and> c \<le> 0x200A) \<or> c = 0x2028 \<or> c = 0x2029 \<or>
      c = 0x202F \<or> c = 0x205F \<or> c = 0x3000 \<or> c = 0xFEFF)"

definition trim :: "jsstring \<Rightarrow> jsstring" where
  "trim s = rev (dropWhile isWhiteSpace (rev (dropWhile isWhiteSpace s)))"

text \<open>
  \<open>s.replace(/\r?\n|\r|@|#/g, ' ')\<close>: at each position the alternatives are tried in
  order, so a CR LF pair is one match and becomes one space; a lone CR, a lone LF, an
  \<open>@\<close> and a \<open>#\<close> each become one space.
\<close>

definition isMatched :: "jschar \<Rightarrow> bool" where
  "isMatched c = (c = 0x0A \<or> c = 0x0D \<or> c = 0x40 \<or> c = 0x23)"

fun replace :: "jsstring \<Rightarrow> jsstring" where
  "replace [] = []"
| "replace [c] = [if isMatched c then 0x20 else c]"
| "replace (c # d # cs) =
     (if c = 0x0D \<and> d = 0x0A then 0x20 # replace cs
      else (if isMatched c then 0x20 else c) # replace (d # cs))"

text \<open>
  A raw item of \<open>batch.results\<close>. Its fields \<open>text\<close> and \<open>created_at\<close> are named
  \<open>raw_text\<close> and \<open>raw_created_at\<close>, apart from those of a tweet. A field that is
  absent reads as \<open>Undefined\<close>. \<open>extended_tweet\<close> is \<open>None\<close> when the item has none or
  it is \<open>null\<close>, so that reading its \<open>full_text\<close> raises; otherwise it holds the value
  that reading \<open>full_text\<close> gives, \<open>Undefined\<close> when there is none. \<open>created_at\<close> is
  the timestamp string of the API. An element of the array that is \<open>null\<close> or not an
  object is an item whose \<open>truncated\<close> and \<open>text\<close> are \<open>Undefined\<close>: the loop raises a
  TypeError at it either way, before anything is pushed for it.
\<close>

record raw_item =
  truncated :: jsval
  raw_text :: jsval
  extended_tweet :: "jsval option"
  raw_created_at :: jsstring

record tweet =
  "text" :: jsstring
  created_at :: jsstring

text \<open>\<open>v.trim()\<close>: only a string has the method.\<close>

fun trim_call :: "jsval \<Rightarrow> js_error + jsstring" where
  "trim_call (Str s) = Inr (trim s)"
| "trim_call _ = Inl TypeError"

text \<open>
  Lines 133 to 138 of \<open>search\<close>: the one value whose \<open>trim\<close> is called, chosen by the
  truthiness of \<open>truncated\<close>. \<open>None\<close> stands for reading \<open>full_text\<close> of a missing
  \<open>extended_tweet\<close>.
\<close>

definition selected_field :: "raw_item \<Rightarrow> jsval option" where
  "selected_field item =
     (if truthy (truncated item) then extended_tweet item else Some (raw_text item))"

definition selected_text :: "raw_item \<Rightarrow> js_error + jsstring" where
  "selected_text item =
     (case selected_field item of
        None \<Rightarrow> Inl TypeError
      | Some v \<Rightarrow> trim_call v)"

text \<open>Lines 132 to 141: the body of the loop over a page, up to the \<open>push\<close>.\<close>

definition normalize_item :: "raw_item \<Rightarrow> js_error + tweet" where
  "normalize_item item =
     (case selected_text item of
        Inl err \<Rightarrow> Inl err
      | Inr t \<Rightarrow> Inr \<lparr>text = replace t, created_at = raw_created_at item\<rparr>)"

text \<open>The transformation of the text alone: trim, then replace.\<close>

definition normalize_text :: "jsstring \<Rightarrow> jsstring" where
  "normalize_text s = replace (trim s)"

text \<open>A string has no leading and no trailing whitespace.\<close>

definition no_outer_ws :: "jsstring \<Rightarrow> bool" where
  "no_outer_ws s =
     (case s of [] \<Rightarrow> True | c # _ \<Rightarrow> \<not> isWhiteSpace c \<and> \<not> isWhiteSpace (last s))"


section \<open>JSON text\<close>

subsection \<open>\<open>JSON.stringify(value, null, 4)\<close>\<close>

definition hexdigit :: "nat \<Rightarrow> jschar" where
  "hexdigit d = (if d < 10 then 0x30 + of_nat d else 0x61 + of_nat (d - 10))"

text \<open>UnicodeEscape: \<open>\u\<close> and four lowercase hexadecimal digits.\<close>

definition unicode_escape :: "jschar \<Rightarrow> jsstring" where
  "unicode_escape c =
     (let n = unat c
      in [0x5C, 0x75, hexdigit (n div 4096), hexdigit (n div 256 mod 16),
          hexdigit (n div 16 mod 16), hexdigit (n mod 16)])"

definition is_high_surrogate :: "jschar \<Rightarrow> bool" where
  "is_high_surrogate c = (0xD800 \<le> c \<and> c \<le> 0xDBFF)"

definition is_low_surrogate :: "jschar \<Rightarrow> bool" where
  "is_low_surrogate c = (0xDC00 \<le> c \<and> c \<le> 0xDFFF)"

text \<open>
  QuoteJSONString on one code point that is a single code unit: the two-character
  escapes, then \<open>\uXXXX\<close> for the other control characters and for a surrogate that is
  not part of a pair, and the code unit itself otherwise.
\<close>

definition quote_unit :: "jschar \<Rightarrow> jsstring" where
  "quote_unit c =
     (if c = 0x08 then [0x5C, 0x62]
      else if c = 0x09 then [0x5C, 0x74]
      else if c = 0x0A then [0x5C, 0x6E]
      else if c = 0x0C then [0x5C, 0x66]
      else if c = 0x0D then [0x5C, 0x72]
      else if c = 0x22 then [0x5C, 0x22]
      else if c = 0x5C then [0x5C, 0x5C]
      else if c < 0x20 \<or> is_high_surrogate c \<or> is_low_surrogate c then unicode_escape c
      else [c])"

text \<open>The string is read by code points: a high surrogate followed by a low one is a
  pair and is copied.\<close>

fun quote_units :: "jsstring \<Rightarrow> jsstring" where
  "quote_units [] = []"
| "quote_units [c] = quote_unit c"
| "quote_units (c # d # cs) =
     (if is_high_surrogate c \<and> is_low_surrogate d then c # d # quote_units cs
      else quote_unit c @ quote_units (d # cs))"

definition QuoteJSONString :: "jsstring \<Rightarrow> jsstring" where
  "QuoteJSONString s = [0x22] @ quote_units s @ [0x22]"

definition gap :: jsstring where
  "gap = js ''    ''"

fun join :: "jsstring \<Rightarrow> jsstring list \<Rightarrow> jsstring" where
  "join sep [] = []"
| "join sep [x] = x"
| "join sep (x # y # ys) = x @ sep @ join sep (y # ys)"

text \<open>
  SerializeJSONProperty with the gap of four spaces; the first argument is the current
  indentation. \<open>None\<close> is the result \<open>undefined\<close>: such an element of an array is written
  as \<open>null\<close>, such a property of an object is left out.
\<close>

fun stringify :: "jsstring \<Rightarrow> jsval \<Rightarrow> jsstring option" where
  "stringify ind Undefined = None"
| "stringify ind Null = Some (js ''null'')"
| "stringify ind (Bool b) = Some (if b then js ''true'' else js ''false'')"
| "stringify ind (Str s) = Some (QuoteJSONString s)"
| "stringify ind (Arr vs) =
     (if vs = [] then Some (js ''[]'')
      else Some (js ''['' @ [0x0A] @ (ind @ gap) @
             join (js '','' @ [0x0A] @ (ind @ gap))
               (map (\<lambda>v. case stringify (ind @ gap) v of None \<Rightarrow> js ''null'' | Some t \<Rightarrow> t) vs) @
             [0x0A] @ ind @ js '']''))"
| "stringify ind (Obj ps) =
     (let partial = concat (map (\<lambda>(k, v). case stringify (ind @ gap) v of
                                  None \<Rightarrow> []
                                | Some t \<Rightarrow> [QuoteJSONString k @ js '': '' @ t]) ps)
      in if partial = [] then Some (js ''{}'')
         else Some (js ''{'' @ [0x0A] @ (ind @ gap) @
                join (js '','' @ [0x0A] @ (ind @ gap)) partial @
                [0x0A] @ ind @ js ''}''))"

text \<open>The array \<open>tweets\<close> of \<open>search\<close> as a value: each element has the properties
  \<open>text\<close> and \<open>created_at\<close>, created in this order.\<close>

definition tweet_value :: "tweet \<Rightarrow> jsval" where
  "tweet_value t = Obj [(js ''text'', Str (text t)), (js ''created_at'', Str (created_at t))]"

definition tweets_value :: "tweet list \<Rightarrow> jsval" where
  "tweets_value ts = Arr (map tweet_value ts)"

definition JSON_stringify :: "jsval \<Rightarrow> jsstring option" where
  "JSON_stringify v = stringify [] v"

text \<open>
  The text of one element of the array, as \<open>stringify\<close> lays it out one level deep
  (lemma \<open>stringify_tweet\<close> below): the braces, the two properties indented by eight
  spaces, the closing brace by four.
\<close>

definition tweet_json :: "tweet \<Rightarrow> jsstring" where
  "tweet_json t =
     0x7B # 0x0A # gap @ gap @
     0x22 # quote_units (js ''text'') @ 0x22 # 0x3A # 0x20 #
     0x22 # quote_units (text t) @ 0x22 # 0x2C # 0x0A # gap @ gap @
     0x22 # quote_units (js ''created_at'') @ 0x22 # 0x3A # 0x20 #
     0x22 # quote_units (created_at t) @ 0x22 # 0x0A # gap @ [0x7D]"

subsection \<open>\<open>JSON.parse\<close>\<close>

text \<open>
  The result of a parsing function: the value and the rest of the input, a syntax error,
  or \<open>Unmodelled\<close> where the model does not follow the engine: a number literal, an
  object with an array-index key (such keys are enumerated first, in numeric order), or
  recursion deeper than the fuel.
\<close>

datatype 'a presult = Parsed 'a jsstring | Syntax | Unmodelled

definition is_json_ws :: "jschar \<Rightarrow> bool" where
  "is_json_ws c = (c = 0x09 \<or> c = 0x0A \<or> c = 0x0D \<or> c = 0x20)"

definition skip_ws :: "jsstring \<Rightarrow> jsstring" where
  "skip_ws cs = dropWhile is_json_ws cs"

definition is_digit :: "jschar \<Rightarrow> bool" where
  "is_digit c = (0x30 \<le> c \<and> c \<le> 0x39)"

definition hexval :: "jschar \<Rightarrow> nat option" where
  "hexval c =
     (if 0x30 \<le> c \<and> c \<le> 0x39 then Some (unat c - 0x30)
      else if 0x61 \<le> c \<and> c \<le> 0x66 then Some (unat c - 0x61 + 10)
      else if 0x41 \<le> c \<and> c \<le> 0x46 then Some (unat c - 0x41 + 10)
      else None)"

definition hex4 :: "jschar \<Rightarrow> jschar \<Rightarrow> jschar \<Rightarrow> jschar \<Rightarrow> jschar option" where
  "hex4 a b c d =
     (case (hexval a, hexval b, hexval c, hexval d) of
        (Some x3, Some x2, Some x1, Some x0) \<Rightarrow> Some (of_nat (((x3 * 16 + x2) * 16 + x1) * 16 + x0))
      | _ \<Rightarrow> None)"

text \<open>The character that a two-character escape stands for.\<close>

definition escape_char :: "jschar \<Rightarrow> jschar option" where
  "escape_char e =
     (if e = 0x22 then Some 0x22
      else if e = 0x5C then Some 0x5C
      else if e = 0x2F then Some 0x2F
      else if e = 0x62 then Some 0x08
      else if e = 0x66 then Some 0x0C
      else if e = 0x6E then Some 0x0A
      else if e = 0x72 then Some 0x0D
      else if e = 0x74 then Some 0x09
      else None)"

text \<open>A string literal after its opening quote: the characters up to the closing quote,
  and the rest of the input.\<close>

fun parse_string :: "jsstring \<Rightarrow> (jsstring \<times> jsstring) option" where
  "parse_string [] = None"
| "parse_string (c # cs) =
     (if c = 0x22 then Some ([], cs)
      else if c = 0x5C then
        (case cs of
           [] \<Rightarrow> None
         | e # es \<Rightarrow>
             if e = 0x75 then
               (case es of
                  a # b # c' # d # rest \<Rightarrow>
                    (case hex4 a b c' d of
                       None \<Rightarrow> None
                     | Some u \<Rightarrow> map_option (\<lambda>(s, r). (u # s, r)) (parse_string rest))
                | _ \<Rightarrow> None)
             else
               (case escape_char e of
                  None \<Rightarrow> None
                | Some u \<Rightarrow> map_option (\<lambda>(s, r). (u # s, r)) (parse_string es)))
      else if c < 0x20 then None
      else map_option (\<lambda>(s, r). (c # s, r)) (parse_string cs))"

fun strip_prefix :: "jsstring \<Rightarrow> jsstring \<Rightarrow> jsstring option" where
  "strip_prefix [] cs = Some cs"
| "strip_prefix (p # ps) [] = None"
| "strip_prefix (p # ps) (c # cs) = (if p = c then strip_prefix ps cs else None)"

text \<open>A key that is an array index: \<open>0\<close>, or digits without a leading zero.\<close>

definition is_index_key :: "jsstring \<Rightarrow> bool" where
  "is_index_key k = (k \<noteq> [] \<and> list_all is_digit k \<and> (k = [0x30] \<or> hd k \<noteq> 0x30))"

text \<open>Defining a property: a key that is already there keeps its place and takes the
  new value.\<close>

fun set_property :: "(jsstring \<times> jsval) list \<Rightarrow> jsstring \<Rightarrow> jsval \<Rightarrow> (jsstring \<times> jsval) list" where
  "set_property [] k v = [(k, v)]"
| "set_property ((k', v') # ps) k v =
     (if k' = k then (k', v) # ps else (k', v') # set_property ps k v)"

definition make_object :: "(jsstring \<times> jsval) list \<Rightarrow> jsstring \<Rightarrow> jsval presult" where
  "make_object members rest =
     (if list_ex (\<lambda>(k, v). is_index_key k) members then Unmodelled
      else Parsed (Obj (foldl (\<lambda>ps (k, v). set_property ps k v) [] members)) rest)"

text \<open>
  The grammar of JSON values. \<open>parse_elements\<close> starts at an element of an array and
  ends after the closing bracket; \<open>parse_members\<close> starts at a key of an object and
  ends after the closing brace. The first argument bounds the depth of the recursion.
\<close>

fun parse_value :: "nat \<Rightarrow> jsstring \<Rightarrow> jsval presult"
  and parse_elements :: "nat \<Rightarrow> jsstring \<Rightarrow> jsval list presult"
  and parse_members :: "nat \<Rightarrow> jsstring \<Rightarrow> (jsstring \<times> jsval) list presult" where
  "parse_value 0 cs = Unmodelled"
| "parse_value (Suc n) [] = Syntax"
| "parse_value (Suc n) (c # cs) =
     (if c = 0x22 then
        (case parse_string cs of
           None \<Rightarrow> Syntax
         | Some (s, rest) \<Rightarrow> Parsed (Str s) rest)
      else if c = 0x5B then
        (case skip_ws cs of
           [] \<Rightarrow> Syntax
         | d # ds \<Rightarrow>
             if d = 0x5D then Parsed (Arr []) ds
             else (case parse_elements n (d # ds) of
                     Parsed vs rest \<Rightarrow> Parsed (Arr vs) rest
                   | Syntax \<Rightarrow> Syntax
                   | Unmodelled \<Rightarrow> Unmodelled))
      else if c = 0x7B then
        (case skip_ws cs of
           [] \<Rightarrow> Syntax
         | d # ds \<Rightarrow>
             if d = 0x7D then Parsed (Obj []) ds
             else (case parse_members n (d # ds) of
                     Parsed members rest \<Rightarrow> make_object members rest
                   | Syntax \<Rightarrow> Syntax
                   | Unmodelled \<Rightarrow> Unmodelled))
      else if c = 0x2D \<or> is_digit c then Unmodelled
      else (case strip_prefix (js ''null'') (c # cs) of
              Some rest \<Rightarrow> Parsed Null rest
            | None \<Rightarrow>
          (case strip_prefix (js ''true'') (c # cs) of
              Some rest \<Rightarrow> Parsed (Bool True) rest
            | None \<Rightarrow>
          (case strip_prefix (js ''false'') (c # cs) of
              Some rest \<Rightarrow> Parsed (Bool False) rest
            | None \<Rightarrow> Syntax))))"
| "parse_elements 0 cs = Unmodelled"
| "parse_elements (Suc n) cs =
     (case parse_value n cs of
        Syntax \<Rightarrow> Syntax
      | Unmodelled \<Rightarrow> Unmodelled
      | Parsed v rest \<Rightarrow>
          (case skip_ws rest of
             [] \<Rightarrow> Syntax
           | d # ds \<Rightarrow>
               if d = 0x2C then
                 (case parse_elements n (skip_ws ds) of
                    Parsed vs rest' \<Rightarrow> Parsed (v # vs) rest'
                  | Syntax \<Rightarrow> Syntax
                  | Unmodelled \<Rightarrow> Unmodelled)
               else if d = 0x5D then Parsed [v] ds
               else Syntax))"
| "parse_members 0 cs = Unmodelled"
| "parse_members (Suc n) [] = Syntax"
| "parse_members (Suc n) (c # cs) =
     (if c \<noteq> 0x22 then Syntax
      else (case parse_string cs of
              None \<Rightarrow> Syntax
            | Some (k, rest) \<Rightarrow>
                (case skip_ws rest of
                   [] \<Rightarrow> Syntax
                 | d # ds \<Rightarrow>
                     if d \<noteq> 0x3A then Syntax
                     else (case parse_value n (skip_ws ds) of
                             Syntax \<Rightarrow> Syntax
                           | Unmodelled \<Rightarrow> Unmodelled
                           | Parsed v rest' \<Rightarrow>
                               (case skip_ws rest' of
                                  [] \<Rightarrow> Syntax
                                | e # es \<Rightarrow>
                                    if e = 0x2C then
                                      (case parse_members n (skip_ws es) of
                                         Parsed members rest'' \<Rightarrow> Parsed ((k, v) # members) rest''
                                       | Syntax \<Rightarrow> Syntax
                                       | Unmodelled \<Rightarrow> Unmodelled)
                                    else if e = 0x7D then Parsed [(k, v)] es
                                    else Syntax)))))"

text \<open>
  \<open>JSON.parse(text)\<close>: one value between optional whitespace. \<open>None\<close> is an input
  outside the model, \<open>Inl SyntaxError\<close> the exception of the engine.
\<close>

definition JSON_parse :: "jsstring \<Rightarrow> (js_error + jsval) option" where
  "JSON_parse t =
     (case parse_value (Suc (length t)) (skip_ws t) of
        Unmodelled \<Rightarrow> None
      | Syntax \<Rightarrow> Some (Inl SyntaxError)
      | Parsed v rest \<Rightarrow> if skip_ws rest = [] then Some (Inr v) else Some (Inl SyntaxError))"

section \<open>The requests\<close>

definition AUTH_URL :: jsstring where
  "AUTH_URL = js ''https://api.twitter.com/oauth2/token''"

definition OUTFILE :: jsstring where
  "OUTFILE = js ''./tweets.json''"

text \<open>A non-negative integer in a template string, as for \<open>response.status\<close>.\<close>

fun decimal :: "nat \<Rightarrow> jsstring" where
  "decimal n =
     (if n < 10 then [0x30 + of_nat n]
      else decimal (n div 10) @ [0x30 + of_nat (n mod 10)])"

declare decimal.simps [simp del]

text \<open>
  What a request sends: the text of the token request, or the object that
  \<open>getTweetBatch\<close> hands to \<open>JSON.stringify\<close>, as the list of its properties.
\<close>

datatype request_body =
    TextBody jsstring
  | JsonBody "(string \<times> jsval) list"

text \<open>
  The actions of a run that are visible outside it, in the order they happen. The lines
  written to the console are kept without their leading timestamp; \<open>ConsoleError\<close>
  holds the text before the error and the error that the template string renders.
\<close>

datatype event =
    ConsoleDebug jsstring
  | ConsoleError jsstring js_error
  | Fetch jsstring "(string \<times> jsstring) list" request_body
  | SetTimeout nat
  | WriteFile jsstring jsstring

text \<open>
  The answer of \<open>fetch\<close>: the promise rejects, or it resolves to a response with a
  status and with the outcome of \<open>response.json()\<close>.
\<close>

datatype 'a fetch_result =
    Reject js_error
  | Respond nat "js_error + 'a"

text \<open>\<open>response.ok\<close> of node-fetch.\<close>

definition ok :: "nat \<Rightarrow> bool" where
  "ok status = (200 \<le> status \<and> status < 300)"

text \<open>
  What \<open>batch.results\<close> holds, as the loop at line 131 reads it.
  \<^item> \<open>NoValue\<close>: the payload has no \<open>results\<close>, or it is \<open>null\<close>, or the payload itself
    is not an object: reading \<open>length\<close> raises a TypeError.
  \<^item> \<open>NoLength\<close>: a value that has no \<open>length\<close>, such as a boolean, a number or an
    object without that property: the length is \<open>undefined\<close>, \<open>i < undefined\<close> is false
    and the body of the loop never runs, as for an empty array.
  \<^item> \<open>Items\<close>: an array, with its elements as raw items. A string reads as the array
    of its characters, which are items without fields.

  An object with a \<open>length\<close> property of its own is outside the modelled input type.
\<close>

datatype results_value =
    NoValue
  | NoLength
  | Items "raw_item list"

text \<open>The items that the loop visits; \<open>None\<close> when reading the length raises.\<close>

fun items_of :: "results_value \<Rightarrow> raw_item list option" where
  "items_of NoValue = None"
| "items_of NoLength = Some []"
| "items_of (Items items) = Some items"

text \<open>A page of results.\<close>

record batch =
  results :: results_value
  "next" :: jsval

text \<open>The object \<open>body\<close> of \<open>getTweetBatch\<close>, lines 36 to 43.\<close>

definition request_object :: "jsstring \<Rightarrow> jsstring \<Rightarrow> jsval \<Rightarrow> jsval \<Rightarrow> (string \<times> jsval) list" where
  "request_object query fromDate maxResults nxt =
     [(''query'', Str query), (''fromDate'', Str fromDate), (''maxResults'', maxResults)] @
     (if truthy nxt then [(''next'', nxt)] else [])"

text \<open>
  \<open>getTweetBatch\<close>, with the answer of the server as last argument. It returns the
  events and either the error it throws or the page.
\<close>

definition getTweetBatch ::
    "jsstring \<Rightarrow> jsstring \<Rightarrow> jsstring \<Rightarrow> jsstring \<Rightarrow> jsval \<Rightarrow> jsval \<Rightarrow> batch fetch_result
     \<Rightarrow> event list \<times> (js_error + batch)" where
  "getTweetBatch token url query fromDate maxResults nxt answer =
     (let body = request_object query fromDate maxResults nxt;
          sent = [ConsoleDebug (js ''getTweetBatch - url:'' @ url @ js '', query:'' @ query),
                  Fetch url [(''Authorization'', js ''Bearer '' @ token)] (JsonBody body)];
          caught = (\<lambda>err. (sent @ [ConsoleError (js ''getTweetBatch - query:'' @ query @ js '' - '') err],
                           Inl err))
      in case answer of
           Reject err \<Rightarrow> caught err
         | Respond status payload \<Rightarrow>
             if ok status then
               (case payload of
                  Inl err \<Rightarrow> caught err
                | Inr json \<Rightarrow> (sent, Inr json))
             else caught (Error (js ''authorization request response status: '' @ decimal status)))"

text \<open>
  \<open>getTwitterToken\<close>. The credential \<open>consumerToken\<close>, which the source computes from
  the configuration of the process with \<open>btoa\<close> and \<open>urlEncode\<close>, is an argument; the
  payload of the answer is the value of \<open>json.access_token\<close>.
\<close>

definition getTwitterToken ::
    "jsstring \<Rightarrow> jsstring \<Rightarrow> jsstring fetch_result \<Rightarrow> event list \<times> (js_error + jsstring)" where
  "getTwitterToken url consumerToken answer =
     (let sent = [ConsoleDebug (js ''getTwitterToken - url:'' @ url),
                  Fetch url [(''Authorization'', js ''Basic '' @ consumerToken),
                             (''Content-Type'', js ''application/x-www-form-urlencoded;charset=UTF-8'')]
                    (TextBody (js ''grant_type=client_credentials''))];
          caught = (\<lambda>err. (sent @ [ConsoleError (js ''getTwitterToken - url:'' @ url @ js '' - '') err],
                           Inl err))
      in case answer of
           Reject err \<Rightarrow> caught err
         | Respond status payload \<Rightarrow>
             if ok status then
               (case payload of
                  Inl err \<Rightarrow> caught err
                | Inr access_token \<Rightarrow> (sent, Inr access_token))
             else caught (Error (js ''response status: '' @ decimal status)))"

text \<open>\<open>rateLimiter\<close>: the timer always fires.\<close>

definition rateLimiter :: "nat \<Rightarrow> event list" where
  "rateLimiter sec = [ConsoleDebug (js ''rateLimiter - sec:'' @ decimal sec), SetTimeout (sec * 1000)]"

section \<open>The search\<close>

text \<open>
  The loop over the items of one page, lines 131 to 143: each tweet is pushed as soon as
  it is built, so an error leaves the tweets of the items before it in the array.
\<close>

fun push_items :: "tweet list \<Rightarrow> raw_item list \<Rightarrow> tweet list \<times> js_error option" where
  "push_items tweets [] = (tweets, None)"
| "push_items tweets (item # items) =
     (case normalize_item item of
        Inl err \<Rightarrow> (tweets, Some err)
      | Inr tweet \<Rightarrow> push_items (tweets @ [tweet]) items)"

text \<open>
  The state in which the \<open>try\<close> block of \<open>search\<close> ends: the events so far, the array
  \<open>tweets\<close>, and the error thrown or the value returned.
\<close>

record run =
  trace :: "event list"
  run_tweets :: "tweet list"
  outcome :: "js_error + nat"

definition before :: "event list \<Rightarrow> run \<Rightarrow> run" where
  "before evs r = r\<lparr>trace := evs @ trace r\<rparr>"

text \<open>
  The \<open>do ... while (next)\<close> loop, lines 129 to 147, followed by \<open>return tweets.length\<close>.
  The last argument lists the answers of the server to the successive requests; the
  result is \<open>None\<close> when the loop asks for more answers than the list holds.
\<close>

fun search_loop ::
    "jsstring \<Rightarrow> jsstring \<Rightarrow> jsstring \<Rightarrow> jsstring \<Rightarrow> jsval \<Rightarrow> jsval \<Rightarrow> tweet list
     \<Rightarrow> batch fetch_result list \<Rightarrow> run option" where
  "search_loop token url query fromDate maxResults nxt tweets [] = None"
| "search_loop token url query fromDate maxResults nxt tweets (answer # answers) =
     (case getTweetBatch token url query fromDate maxResults nxt answer of
        (evs, Inl err) \<Rightarrow> Some \<lparr>trace = evs, run_tweets = tweets, outcome = Inl err\<rparr>
      | (evs, Inr batch) \<Rightarrow>
          (case items_of (results batch) of
             None \<Rightarrow> Some \<lparr>trace = evs, run_tweets = tweets, outcome = Inl TypeError\<rparr>
           | Some items \<Rightarrow>
               (case push_items tweets items of
                  (tweets', Some err) \<Rightarrow> Some \<lparr>trace = evs, run_tweets = tweets', outcome = Inl err\<rparr>
                | (tweets', None) \<Rightarrow>
                    if truthy (next batch)
                    then map_option (before (evs @ rateLimiter 3))
                           (search_loop token url query fromDate maxResults (next batch) tweets' answers)
                    else Some \<lparr>trace = evs @ rateLimiter 3, run_tweets = tweets',
                               outcome = Inr (length tweets')\<rparr>)))"

text \<open>The \<open>catch\<close> block, lines 151 to 156: the error is logged and thrown again.\<close>

definition catch_block :: "jsstring \<Rightarrow> jsstring \<Rightarrow> run \<Rightarrow> run" where
  "catch_block url query r =
     (case outcome r of
        Inl err \<Rightarrow>
          r\<lparr>trace := trace r @
                [ConsoleError (js ''search - url: '' @ url @ js '', query:'' @ query @ js '' - '') err]\<rparr>
      | Inr n \<Rightarrow> r)"

text \<open>
  The \<open>finally\<close> block, lines 157 to 159. \<open>write_answer\<close> is the error with which
  \<open>writeFile\<close> rejects, if it does: that error then replaces the outcome of the
  \<open>try\<close> block. \<open>writeFile\<close> is not reached when \<open>JSON.stringify\<close> gives \<open>undefined\<close>.
\<close>

definition finally_block :: "js_error option \<Rightarrow> run \<Rightarrow> run" where
  "finally_block write_answer r =
     (case JSON_stringify (tweets_value (run_tweets r)) of
        None \<Rightarrow> r\<lparr>outcome := Inl TypeError\<rparr>
      | Some data \<Rightarrow>
          r\<lparr>trace := trace r @ [WriteFile OUTFILE data],
            outcome := (case write_answer of Some err \<Rightarrow> Inl err | None \<Rightarrow> outcome r)\<rparr>)"

text \<open>What the world answers to one run of \<open>search\<close>.\<close>

record world =
  consumerToken :: jsstring
  token_answer :: "jsstring fetch_result"
  batch_answers :: "batch fetch_result list"
  write_answer :: "js_error option"

text \<open>\<open>search\<close>, lines 120 to 160.\<close>

definition search :: "world \<Rightarrow> jsstring \<Rightarrow> jsstring \<Rightarrow> jsstring \<Rightarrow> jsval \<Rightarrow> run option" where
  "search w url query fromDate maxResults =
     (let started = [ConsoleDebug (js ''search - url:'' @ url @ js '', query:'' @ query)];
          try_block =
            (case getTwitterToken AUTH_URL (consumerToken w) (token_answer w) of
               (evs, Inl err) \<Rightarrow> Some \<lparr>trace = evs, run_tweets = [], outcome = Inl err\<rparr>
             | (evs, Inr token) \<Rightarrow>
                 map_option (before evs)
                   (search_loop token url query fromDate maxResults Null [] (batch_answers w)))
      in map_option (\<lambda>r. finally_block (write_answer w) (catch_block url query (before started r)))
           try_block)"

section \<open>The result file\<close>

text \<open>
  The files, by name, with their contents as text: the encoding of the text as bytes
  by \<open>writeFile\<close> and its decoding when \<open>JSON.parse\<close> converts the buffer to a string
  are not modelled. A write that succeeds replaces the whole file.
\<close>

type_synonym files = "jsstring \<rightharpoonup> jsstring"

definition writeFile :: "jsstring \<Rightarrow> jsstring \<Rightarrow> files \<Rightarrow> files" where
  "writeFile file data fs = fs(file \<mapsto> data)"

definition readFile :: "jsstring \<Rightarrow> files \<Rightarrow> js_error + jsstring" where
  "readFile file fs =
     (case fs file of
        None \<Rightarrow> Inl (Rejected (js ''ENOENT''))
      | Some data \<Rightarrow> Inr data)"

text \<open>\<open>readTweetFile\<close>, lines 197 to 200.\<close>

definition readTweetFile :: "jsstring \<Rightarrow> files \<Rightarrow> (js_error + jsval) option" where
  "readTweetFile file fs =
     (case readFile file fs of
        Inl err \<Rightarrow> Some (Inl err)
      | Inr data \<Rightarrow> JSON_parse data)"

text \<open>The files after the events of a run whose writes succeed.\<close>

fun files_after :: "event list \<Rightarrow> files \<Rightarrow> files" where
  "files_after [] fs = fs"
| "files_after (WriteFile file data # evs) fs = files_after evs (writeFile file data fs)"
| "files_after (_ # evs) fs = files_after evs fs"

section \<open>Reading a run\<close>

text \<open>The bodies of the search requests of a trace, in order.\<close>

fun batch_requests :: "event list \<Rightarrow> (string \<times> jsval) list list" where
  "batch_requests [] = []"
| "batch_requests (Fetch url headers (JsonBody body) # evs) = body # batch_requests evs"
| "batch_requests (_ # evs) = batch_requests evs"

text \<open>The \<open>next\<close> property of each search request, \<open>None\<close> where the body has none.\<close>

definition sent_next :: "event list \<Rightarrow> jsval option list" where
  "sent_next evs = map (\<lambda>body. map_of body ''next'') (batch_requests evs)"

text \<open>The calls of \<open>writeFile\<close> of a trace, in order.\<close>

fun writes :: "event list \<Rightarrow> (jsstring \<times> jsstring) list" where
  "writes [] = []"
| "writes (WriteFile file data # evs) = (file, data) # writes evs"
| "writes (_ # evs) = writes evs"

text \<open>
  An answer after which the loop goes on: the request succeeds, every item of the page
  is normalized without error, and the page carries a truthy \<open>next\<close>.
\<close>

definition continues :: "batch fetch_result \<Rightarrow> bool" where
  "continues answer =
     (case answer of
        Respond status (Inr b) \<Rightarrow>
          ok status \<and>
          (case items_of (results b) of
             None \<Rightarrow> False
           | Some items \<Rightarrow> snd (push_items [] items) = None) \<and>
          truthy (next b)
      | _ \<Rightarrow> False)"

text \<open>The \<open>next\<close> value of the page of an answer.\<close>

definition next_of :: "batch fetch_result \<Rightarrow> jsval" where
  "next_of answer = (case answer of Respond status (Inr b) \<Rightarrow> next b | _ \<Rightarrow> Undefined)"

text \<open>The tweets that the loop pushes for one answer: those of the items of its page, up
  to the first item that raises an error.\<close>

definition page_tweets :: "batch fetch_result \<Rightarrow> tweet list" where
  "page_tweets answer =
     (case answer of
        Respond status (Inr b) \<Rightarrow>
          (if ok status
           then (case items_of (results b) of
                   None \<Rightarrow> []
                 | Some items \<Rightarrow> fst (push_items [] items))
           else [])
      | _ \<Rightarrow> [])"

text \<open>The answers that a run consumes: those after which the loop goes on, and the
  first one after which it does not.\<close>

definition consumed :: "batch fetch_result list \<Rightarrow> batch fetch_result list" where
  "consumed answers = take (Suc (length (takeWhile continues answers))) answers"

section \<open>Sample answers\<close>

text \<open>
  Two pages as the search endpoint sends them: the first with a truncated tweet, a short
  one and the cursor \<open>abc\<close>, the second with one tweet and no cursor; an item without
  any text; and a world in which the token request and the write succeed.
\<close>

definition sample_truncated :: raw_item where
  "sample_truncated =
     \<lparr>truncated = Bool True, raw_text = Undefined,
      extended_tweet = Some (Str (js ''long @x '')), raw_created_at = js ''d1''\<rparr>"

definition sample_short :: raw_item where
  "sample_short =
     \<lparr>truncated = Bool False, raw_text = Str (js ''#short''),
      extended_tweet = None, raw_created_at = js ''d2''\<rparr>"

definition sample_third :: raw_item where
  "sample_third =
     \<lparr>truncated = Bool False, raw_text = Str (js ''third''),
      extended_tweet = None, raw_created_at = js ''d3''\<rparr>"

definition sample_broken :: raw_item where
  "sample_broken =
     \<lparr>truncated = Bool False, raw_text = Undefined,
      extended_tweet = None, raw_created_at = js ''d4''\<rparr>"

definition sample_page1 :: batch where
  "sample_page1 = \<lparr>results = Items [sample_truncated, sample_short], next = Str (js ''abc'')\<rparr>"

definition sample_page2 :: batch where
  "sample_page2 = \<lparr>results = Items [sample_third], next = Undefined\<rparr>"

definition sample_world :: "batch fetch_result list \<Rightarrow> world" where
  "sample_world answers =
     \<lparr>consumerToken = js ''key'', token_answer = Respond 200 (Inr (js ''tok'')),
      batch_answers = answers, write_answer = None\<rparr>"

section \<open>Lemmas about the normalization\<close>

lemma isMatched_space: "\<not> isMatched 0x20"
  by (simp add: isMatched_def)

lemma replace_Nil_iff: "replace s = [] \<longleftrightarrow> s = []"
  by (induction s rule: replace.induct) auto


lemma last_dropWhile: "dropWhile P xs \<noteq> [] \<Longrightarrow> last (dropWhile P xs) = last xs"
  by (induction xs) (auto split: if_splits)

lemma trim_Nil_or: "trim s = [] \<or> (\<not> isWhiteSpace (hd (trim s)) \<and> \<not> isWhiteSpace (last (trim s)))"
proof (cases "trim s = []")
  case False
  define d where "d = dropWhile isWhiteSpace s"
  define e where "e = dropWhile isWhiteSpace (rev d)"
  have t: "trim s = rev e" by (simp add: trim_def d_def e_def)
  with False have ne: "e \<noteq> []" by simp
  then have dne: "d \<noteq> []" by (auto simp: e_def)
  have "last (trim s) = hd e" using ne by (simp add: t last_rev)
  moreover have "\<not> isWhiteSpace (hd e)" using ne unfolding e_def by (rule hd_dropWhile)
  moreover have "hd (trim s) = last e" using ne by (simp add: t hd_rev)
  moreover have "last e = last (rev d)" using ne unfolding e_def by (rule last_dropWhile)
  moreover have "last (rev d) = hd d" using dne by (simp add: last_rev)
  moreover have "\<not> isWhiteSpace (hd d)" using dne unfolding d_def by (rule hd_dropWhile)
  ultimately show ?thesis by simp
qed simp

lemma trim_fixed: "s = [] \<or> (\<not> isWhiteSpace (hd s) \<and> \<not> isWhiteSpace (last s)) \<Longrightarrow> trim s = s"
proof (cases "s = []")
  case True then show ?thesis by (simp add: trim_def)
next
  case False
  assume "s = [] \<or> (\<not> isWhiteSpace (hd s) \<and> \<not> isWhiteSpace (last s))"
  with False have h: "\<not> isWhiteSpace (hd s)" and l: "\<not> isWhiteSpace (last s)" by auto
  from False h have 1: "dropWhile isWhiteSpace s = s" by (cases s) auto
  from False l have 2: "dropWhile isWhiteSpace (rev s) = rev s" by (cases "rev s") (auto simp: hd_rev dest: arg_cong[where f=hd])
  show ?thesis by (simp add: trim_def 1 2)
qed

lemma no_outer_ws_alt: "no_outer_ws s \<longleftrightarrow> s = [] \<or> (\<not> isWhiteSpace (hd s) \<and> \<not> isWhiteSpace (last s))"
  by (cases s) (auto simp: no_outer_ws_def)

lemma no_outer_ws_iff: "no_outer_ws s \<longleftrightarrow> trim s = s"
  using trim_Nil_or[of s] trim_fixed[of s] by (auto simp: no_outer_ws_alt)

lemma set_trim: "c \<in> set (trim s) \<Longrightarrow> c \<in> set s"
  unfolding trim_def by (auto dest!: set_dropWhileD)

lemma last_replace: "s \<noteq> [] \<Longrightarrow> \<not> isMatched (last s) \<Longrightarrow> last (replace s) = last s"
proof (induction s rule: replace.induct)
  case (3 c d cs)
  show ?case
  proof (cases "c = 0x0D \<and> d = 0x0A")
    case True
    with 3 have "cs \<noteq> []" by (auto simp: isMatched_def)
    with 3 True show ?thesis by (simp add: replace_Nil_iff)
  next
    case False
    have ne: "replace (d # cs) \<noteq> []" by (simp add: replace_Nil_iff)
    have eq: "replace (c # d # cs) = (if isMatched c then 0x20 else c) # replace (d # cs)"
      by (simp only: replace.simps False if_False)
    have "last (replace (d # cs)) = last (d # cs)" using 3 False by simp
    then show ?thesis by (simp only: eq last_ConsR[OF ne]) simp
  qed
qed auto

lemma hd_replace: "s \<noteq> [] \<Longrightarrow> \<not> isMatched (hd s) \<Longrightarrow> hd (replace s) = hd s"
  by (induction s rule: replace.induct) (auto simp: isMatched_def)

lemma replace_no_matched: "c \<in> set (replace s) \<Longrightarrow> \<not> isMatched c"
  by (induction s arbitrary: c rule: replace.induct) (auto simp: isMatched_space split: if_splits)

lemma replace_clean: "\<forall>c\<in>set s. \<not> isMatched c \<Longrightarrow> replace s = s"
  by (induction s rule: replace.induct) (auto simp: isMatched_def)


lemma ws_not_matched: "isMatched c \<Longrightarrow> c = 0x40 \<or> c = 0x23 \<or> isWhiteSpace c"
  by (auto simp: isMatched_def isWhiteSpace_def)

lemma no_outer_ws_normalize_text:
  assumes "trim s = [] \<or> (hd (trim s) \<noteq> 0x40 \<and> hd (trim s) \<noteq> 0x23 \<and> last (trim s) \<noteq> 0x40 \<and> last (trim s) \<noteq> 0x23)"
  shows "no_outer_ws (normalize_text s)"
proof (cases "trim s = []")
  case True then show ?thesis by (simp add: normalize_text_def no_outer_ws_def)
next
  case False
  with trim_Nil_or[of s] have w: "\<not> isWhiteSpace (hd (trim s))" "\<not> isWhiteSpace (last (trim s))" by auto
  from False assms w have m: "\<not> isMatched (hd (trim s))" "\<not> isMatched (last (trim s))"
    using ws_not_matched by blast+
  have "replace (trim s) \<noteq> []" using False by (simp add: replace_Nil_iff)
  moreover have "hd (replace (trim s)) = hd (trim s)" using False m by (simp add: hd_replace)
  moreover have "last (replace (trim s)) = last (trim s)" using False m by (simp add: last_replace)
  ultimately show ?thesis using w by (simp add: no_outer_ws_alt normalize_text_def)
qed

lemma normalize_text_twice: "normalize_text (normalize_text s) = trim (normalize_text s)"
proof -
  have "\<forall>c\<in>set (trim (replace (trim s))). \<not> isMatched c"
    using set_trim replace_no_matched by blast
  then show ?thesis unfolding normalize_text_def by (rule replace_clean)
qed

lemma trim_trim: "trim (trim s) = trim s"
  using trim_Nil_or[of s] trim_fixed[of "trim s"] by blast


section \<open>Lemmas about the requests\<close>


lemma digit_inj: "a < 10 \<Longrightarrow> b < 10 \<Longrightarrow> (0x30 + of_nat a :: jschar) = 0x30 + of_nat b \<Longrightarrow> a = b"
proof -
  assume a: "a < 10" and b: "b < 10" and e: "(0x30 + of_nat a :: jschar) = 0x30 + of_nat b"
  from e have "(of_nat a :: jschar) = of_nat b" by simp
  then have "unat (of_nat a :: jschar) = unat (of_nat b :: jschar)" by simp
  moreover have "unat (of_nat a :: jschar) = a" using a by (simp add: unat_of_nat)
  moreover have "unat (of_nat b :: jschar) = b" using b by (simp add: unat_of_nat)
  ultimately show "a = b" by simp
qed

lemma decimal_nonempty: "decimal n \<noteq> []"
  by (subst decimal.simps) simp

lemma decimal_length: "10 \<le> n \<Longrightarrow> 2 \<le> length (decimal n)"
proof -
  assume "10 \<le> n"
  then have "decimal n = decimal (n div 10) @ [0x30 + of_nat (n mod 10)]"
    by (subst decimal.simps) simp
  moreover have "1 \<le> length (decimal (n div 10))"
    using decimal_nonempty[of "n div 10"] by (cases "decimal (n div 10)") auto
  ultimately show ?thesis by simp
qed

lemma decimal_inj: "decimal n = decimal m \<Longrightarrow> n = m"
proof (induction n arbitrary: m rule: decimal.induct)
  case (1 n)
  show ?case
  proof (cases "n < 10")
    case small: True
    then have dn: "decimal n = [0x30 + of_nat n]" by (subst decimal.simps) simp
    show ?thesis
    proof (cases "m < 10")
      case True
      then have "decimal m = [0x30 + of_nat m]" by (subst decimal.simps) simp
      with dn "1.prems" have "(0x30 + of_nat n :: jschar) = 0x30 + of_nat m" by simp
      with small True show ?thesis by (rule digit_inj)
    next
      case False
      then have "2 \<le> length (decimal m)" by (simp add: decimal_length)
      with dn "1.prems" show ?thesis by simp
    qed
  next
    case big: False
    then have dn: "decimal n = decimal (n div 10) @ [0x30 + of_nat (n mod 10)]"
      by (subst decimal.simps) simp
    show ?thesis
    proof (cases "m < 10")
      case True
      then have "decimal m = [0x30 + of_nat m]" by (subst decimal.simps) simp
      moreover from big have "2 \<le> length (decimal n)" by (simp add: decimal_length)
      ultimately show ?thesis using "1.prems" by simp
    next
      case False
      then have dm: "decimal m = decimal (m div 10) @ [0x30 + of_nat (m mod 10)]"
        by (subst decimal.simps) simp
      from "1.prems" dn dm have front: "decimal (n div 10) = decimal (m div 10)"
        and lastd: "(0x30 + of_nat (n mod 10) :: jschar) = 0x30 + of_nat (m mod 10)" by simp_all
      from big front have "n div 10 = m div 10" by (rule "1.IH")
      moreover have "n mod 10 = m mod 10" using lastd by (intro digit_inj) simp_all
      ultimately show ?thesis by (metis div_mult_mod_eq)
    qed
  qed
qed

lemma getTweetBatch_status:
  "\<not> ok status \<Longrightarrow>
   getTweetBatch token url query fromDate maxResults nxt (Respond status payload)
     = ([ConsoleDebug (js ''getTweetBatch - url:'' @ url @ js '', query:'' @ query),
         Fetch url [(''Authorization'', js ''Bearer '' @ token)]
           (JsonBody (request_object query fromDate maxResults nxt)),
         ConsoleError (js ''getTweetBatch - query:'' @ query @ js '' - '')
           (Error (js ''authorization request response status: '' @ decimal status))],
        Inl (Error (js ''authorization request response status: '' @ decimal status)))"
  by (simp add: getTweetBatch_def Let_def)


section \<open>Lemmas about the loop\<close>


lemma batch_requests_append: "batch_requests (xs @ ys) = batch_requests xs @ batch_requests ys"
  by (induction xs rule: batch_requests.induct) auto

lemma writes_append: "writes (xs @ ys) = writes xs @ writes ys"
  by (induction xs rule: writes.induct) auto

lemma rateLimiter_quiet: "batch_requests (rateLimiter sec) = []" "writes (rateLimiter sec) = []"
  by (simp_all add: rateLimiter_def)

lemma getTweetBatch_sent:
  "batch_requests (fst (getTweetBatch token url query fromDate maxResults nxt answer))
     = [request_object query fromDate maxResults nxt]"
  by (simp add: getTweetBatch_def Let_def split: fetch_result.splits sum.splits)

lemma getTweetBatch_no_write:
  "writes (fst (getTweetBatch token url query fromDate maxResults nxt answer)) = []"
  by (simp add: getTweetBatch_def Let_def split: fetch_result.splits sum.splits)

lemma getTweetBatch_page:
  "snd (getTweetBatch token url query fromDate maxResults nxt answer) = Inr b
     \<longleftrightarrow> (\<exists>status. answer = Respond status (Inr b) \<and> ok status)"
  by (auto simp: getTweetBatch_def Let_def split: fetch_result.splits sum.splits)

lemma push_items_acc:
  "push_items acc items = (acc @ fst (push_items [] items), snd (push_items [] items))"
proof (induction items arbitrary: acc)
  case Nil
  show ?case by simp
next
  case (Cons item items)
  show ?case
  proof (cases "normalize_item item")
    case (Inl err)
    then show ?thesis by simp
  next
    case (Inr t)
    have "push_items (acc @ [t]) items
            = ((acc @ [t]) @ fst (push_items [] items), snd (push_items [] items))"
      by (rule Cons.IH)
    moreover have "push_items [t] items = ([t] @ fst (push_items [] items), snd (push_items [] items))"
      by (rule Cons.IH)
    ultimately show ?thesis using Inr by simp
  qed
qed

lemma before_simps [simp]:
  "trace (before evs r) = evs @ trace r"
  "run_tweets (before evs r) = run_tweets r"
  "outcome (before evs r) = outcome r"
  by (simp_all add: before_def)

text \<open>One turn of the loop on an answer after which it goes on.\<close>

lemma search_loop_continues:
  assumes "continues answer"
  shows "search_loop token url query fromDate maxResults nxt acc (answer # answers)
           = map_option (before (fst (getTweetBatch token url query fromDate maxResults nxt answer) @ rateLimiter 3))
               (search_loop token url query fromDate maxResults (next_of answer) (acc @ page_tweets answer) answers)"
proof -
  from assms obtain status b items where
    a: "answer = Respond status (Inr b)" and o: "ok status" and
    r: "items_of (results b) = Some items" and p: "snd (push_items [] items) = None" and t: "truthy (next b)"
    by (auto simp: continues_def split: fetch_result.splits sum.splits option.splits)
  have g: "getTweetBatch token url query fromDate maxResults nxt answer
             = (fst (getTweetBatch token url query fromDate maxResults nxt answer), Inr b)"
    using a o by (simp add: getTweetBatch_def Let_def)
  have pi: "push_items acc items = (acc @ fst (push_items [] items), None)"
    using push_items_acc[of acc items] p by simp
  have pt: "page_tweets answer = fst (push_items [] items)"
    using a o r by (simp add: page_tweets_def)
  have n: "next_of answer = next b" using a by (simp add: next_of_def)
  show ?thesis
    by (subst search_loop.simps, subst g) (simp add: r pi t pt n)
qed

text \<open>The last turn of the loop, on an answer after which it stops.\<close>

lemma search_loop_stops:
  assumes "\<not> continues answer"
  shows "\<exists>r. search_loop token url query fromDate maxResults nxt acc (answer # answers) = Some r \<and>
             batch_requests (trace r) = [request_object query fromDate maxResults nxt] \<and>
             writes (trace r) = [] \<and>
             run_tweets r = acc @ page_tweets answer \<and>
             (\<forall>n. outcome r = Inr n \<longrightarrow> n = length (run_tweets r)) \<and>
             (\<forall>err. snd (getTweetBatch token url query fromDate maxResults nxt answer) = Inl err
                     \<longrightarrow> outcome r = Inl err)"
proof (cases "getTweetBatch token url query fromDate maxResults nxt answer")
  case (Pair evs res)
  have ev: "batch_requests evs = [request_object query fromDate maxResults nxt]" "writes evs = []"
    using getTweetBatch_sent[of token url query fromDate maxResults nxt answer]
          getTweetBatch_no_write[of token url query fromDate maxResults nxt answer] Pair by simp_all
  show ?thesis
  proof (cases res)
    case (Inl err)
    have "page_tweets answer = []"
      using Pair Inl getTweetBatch_page[of token url query fromDate maxResults nxt answer]
      by (auto simp: page_tweets_def split: fetch_result.splits sum.splits)
    then show ?thesis using Pair Inl ev by simp
  next
    case (Inr b)
    then obtain status where a: "answer = Respond status (Inr b)" and o: "ok status"
      using Pair getTweetBatch_page[of token url query fromDate maxResults nxt answer b] by auto
    show ?thesis
    proof (cases "items_of (results b)")
      case None
      then have "page_tweets answer = []" using a o by (simp add: page_tweets_def)
      then show ?thesis using Pair Inr None ev by simp
    next
      case (Some items)
      have pt: "page_tweets answer = fst (push_items [] items)"
        using a o Some by (simp add: page_tweets_def)
      have pi: "push_items acc items = (acc @ fst (push_items [] items), snd (push_items [] items))"
        by (rule push_items_acc)
      show ?thesis
      proof (cases "snd (push_items [] items)")
        case (Some err)
        then show ?thesis using Pair Inr \<open>items_of (results b) = Some items\<close> ev pt pi by simp
      next
        case None
        with assms a o \<open>items_of (results b) = Some items\<close> have "\<not> truthy (next b)"
          by (simp add: continues_def)
        then show ?thesis using Pair Inr \<open>items_of (results b) = Some items\<close> ev pt pi None
          by (simp add: batch_requests_append writes_append rateLimiter_quiet)
      qed
    qed
  qed
qed


lemma consumed_Cons:
  "consumed (answer # answers) = answer # (if continues answer then consumed answers else [])"
  by (simp add: consumed_def)

text \<open>The loop runs out of answers exactly when every answer asks for one more.\<close>

lemma search_loop_None_iff:
  "search_loop token url query fromDate maxResults nxt acc answers = None
     \<longleftrightarrow> list_all continues answers"
proof (induction answers arbitrary: nxt acc)
  case Nil
  show ?case by simp
next
  case (Cons answer answers)
  show ?case
  proof (cases "continues answer")
    case True
    have "search_loop token url query fromDate maxResults nxt acc (answer # answers) = None
            \<longleftrightarrow> search_loop token url query fromDate maxResults (next_of answer)
                  (acc @ page_tweets answer) answers = None"
      unfolding search_loop_continues[OF True] by simp
    also have "\<dots> \<longleftrightarrow> list_all continues answers" by (rule Cons.IH)
    finally show ?thesis using True by simp
  next
    case False
    from search_loop_stops[OF False, of token url query fromDate maxResults nxt acc answers]
    show ?thesis using False by auto
  qed
qed

text \<open>What a finished loop has done.\<close>

lemma search_loop_Some:
  "search_loop token url query fromDate maxResults nxt acc answers = Some r \<Longrightarrow>
     batch_requests (trace r)
       = map (request_object query fromDate maxResults) (nxt # map next_of (takeWhile continues answers)) \<and>
     writes (trace r) = [] \<and>
     run_tweets r = acc @ concat (map page_tweets (consumed answers)) \<and>
     (\<forall>n. outcome r = Inr n \<longrightarrow> n = length (run_tweets r))"
proof (induction answers arbitrary: nxt acc r)
  case Nil
  then show ?case by simp
next
  case (Cons answer answers)
  note run = Cons.prems
  show ?case
  proof (cases "continues answer")
    case True
    from run[unfolded search_loop_continues[OF True]] obtain r' where
      r': "search_loop token url query fromDate maxResults (next_of answer) (acc @ page_tweets answer) answers = Some r'"
      and r: "r = before (fst (getTweetBatch token url query fromDate maxResults nxt answer) @ rateLimiter 3) r'"
      by auto
    show ?thesis
      using Cons.IH[OF r'] True
      by (auto simp: r batch_requests_append writes_append rateLimiter_quiet getTweetBatch_sent
          getTweetBatch_no_write consumed_Cons)
  next
    case False
    from search_loop_stops[OF False, of token url query fromDate maxResults nxt acc answers] run
    show ?thesis using False by (auto simp: consumed_Cons)
  qed
qed

section \<open>Lemmas about a run\<close>


lemma stringify_tweets_Some: "\<exists>data. JSON_stringify (tweets_value ts) = Some data"
  by (cases "ts = []") (simp_all add: JSON_stringify_def tweets_value_def)

lemma getTwitterToken_quiet:
  "batch_requests (fst (getTwitterToken url credential answer)) = []"
  "writes (fst (getTwitterToken url credential answer)) = []"
  by (simp_all add: getTwitterToken_def Let_def split: fetch_result.splits sum.splits)

text \<open>The \<open>catch\<close> and \<open>finally\<close> blocks after a \<open>try\<close> block that ends in \<open>r\<close>.\<close>

lemma finish_run:
  "\<exists>logged data.
     JSON_stringify (tweets_value (run_tweets r)) = Some data \<and>
     trace (finally_block answer (catch_block url query r)) = trace r @ logged @ [WriteFile OUTFILE data] \<and>
     writes logged = [] \<and> batch_requests logged = [] \<and>
     run_tweets (finally_block answer (catch_block url query r)) = run_tweets r \<and>
     outcome (finally_block answer (catch_block url query r))
       = (case answer of Some err \<Rightarrow> Inl err | None \<Rightarrow> outcome r)"
proof -
  obtain data where d: "JSON_stringify (tweets_value (run_tweets r)) = Some data"
    using stringify_tweets_Some by blast
  show ?thesis
  proof (cases "outcome r")
    case (Inl err)
    let ?logged = "[ConsoleError (js ''search - url: '' @ url @ js '', query:'' @ query @ js '' - '') err]"
    have "trace (finally_block answer (catch_block url query r)) = trace r @ ?logged @ [WriteFile OUTFILE data]"
      "run_tweets (finally_block answer (catch_block url query r)) = run_tweets r"
      "outcome (finally_block answer (catch_block url query r))
         = (case answer of Some err \<Rightarrow> Inl err | None \<Rightarrow> outcome r)"
      using d Inl by (simp_all add: finally_block_def catch_block_def split: option.splits)
    moreover have "writes ?logged = []" "batch_requests ?logged = []" by simp_all
    ultimately show ?thesis using d by blast
  next
    case (Inr n)
    have "trace (finally_block answer (catch_block url query r)) = trace r @ [] @ [WriteFile OUTFILE data]"
      "run_tweets (finally_block answer (catch_block url query r)) = run_tweets r"
      "outcome (finally_block answer (catch_block url query r))
         = (case answer of Some err \<Rightarrow> Inl err | None \<Rightarrow> outcome r)"
      using d Inr by (simp_all add: finally_block_def catch_block_def split: option.splits)
    moreover have "writes [] = []" "batch_requests [] = []" by simp_all
    ultimately show ?thesis using d by blast
  qed
qed

lemma search_token_error:
  assumes "snd (getTwitterToken AUTH_URL (consumerToken w) (token_answer w)) = Inl err"
  shows "search w url query fromDate maxResults
           = Some (finally_block (write_answer w) (catch_block url query
                (before [ConsoleDebug (js ''search - url:'' @ url @ js '', query:'' @ query)]
                   \<lparr>trace = fst (getTwitterToken AUTH_URL (consumerToken w) (token_answer w)),
                     run_tweets = [], outcome = Inl err\<rparr>)))"
  using assms
  by (cases "getTwitterToken AUTH_URL (consumerToken w) (token_answer w)")
     (simp add: search_def Let_def)

lemma search_token_ok:
  assumes "snd (getTwitterToken AUTH_URL (consumerToken w) (token_answer w)) = Inr token"
  shows "search w url query fromDate maxResults
           = map_option (\<lambda>r. finally_block (write_answer w) (catch_block url query
                (before ([ConsoleDebug (js ''search - url:'' @ url @ js '', query:'' @ query)] @
                         fst (getTwitterToken AUTH_URL (consumerToken w) (token_answer w))) r)))
               (search_loop token url query fromDate maxResults Null [] (batch_answers w))"
  using assms
  by (cases "getTwitterToken AUTH_URL (consumerToken w) (token_answer w)")
     (simp add: search_def Let_def option.map_comp comp_def before_def)


text \<open>A finished run of \<open>search\<close>, by the outcome of the token request.\<close>

lemma search_Some:
  assumes "search w url query fromDate maxResults = Some r"
  shows "\<exists>earlier data.
           JSON_stringify (tweets_value (run_tweets r)) = Some data \<and>
           trace r = earlier @ [WriteFile OUTFILE data] \<and> writes earlier = [] \<and>
           (case snd (getTwitterToken AUTH_URL (consumerToken w) (token_answer w)) of
              Inl err \<Rightarrow>
                run_tweets r = [] \<and> batch_requests earlier = [] \<and>
                outcome r = (case write_answer w of Some e \<Rightarrow> Inl e | None \<Rightarrow> Inl err)
            | Inr token \<Rightarrow>
                (\<exists>l. search_loop token url query fromDate maxResults Null [] (batch_answers w) = Some l \<and>
                     run_tweets r = run_tweets l \<and> batch_requests earlier = batch_requests (trace l) \<and>
                     outcome r = (case write_answer w of Some e \<Rightarrow> Inl e | None \<Rightarrow> outcome l)))"
proof (cases "snd (getTwitterToken AUTH_URL (consumerToken w) (token_answer w))")
  case (Inl err)
  let ?r0 = "before [ConsoleDebug (js ''search - url:'' @ url @ js '', query:'' @ query)]
               \<lparr>trace = fst (getTwitterToken AUTH_URL (consumerToken w) (token_answer w)),
                 run_tweets = [], outcome = Inl err\<rparr>"
  from assms search_token_error[OF Inl]
  have r: "r = finally_block (write_answer w) (catch_block url query ?r0)" by simp
  from finish_run[of ?r0 "write_answer w" url query] obtain logged data where
    f: "JSON_stringify (tweets_value (run_tweets ?r0)) = Some data"
       "trace r = trace ?r0 @ logged @ [WriteFile OUTFILE data]"
       "writes logged = []" "batch_requests logged = []"
       "run_tweets r = run_tweets ?r0"
       "outcome r = (case write_answer w of Some err \<Rightarrow> Inl err | None \<Rightarrow> outcome ?r0)"
    unfolding r by blast
  have "JSON_stringify (tweets_value (run_tweets r)) = Some data"
    using f(1,5) by simp
  moreover have "trace r = (trace ?r0 @ logged) @ [WriteFile OUTFILE data]"
    using f(2) by simp
  moreover have "writes (trace ?r0 @ logged) = []" "batch_requests (trace ?r0 @ logged) = []"
    using f(3,4) by (simp_all add: writes_append batch_requests_append getTwitterToken_quiet)
  moreover have "run_tweets r = []" using f(5) by simp
  moreover have "outcome r = (case write_answer w of Some e \<Rightarrow> Inl e | None \<Rightarrow> Inl err)"
    using f(6) by (simp split: option.splits)
  ultimately show ?thesis unfolding Inl by (simp only: sum.case) blast
next
  case (Inr token)
  let ?evs = "[ConsoleDebug (js ''search - url:'' @ url @ js '', query:'' @ query)] @
              fst (getTwitterToken AUTH_URL (consumerToken w) (token_answer w))"
  from assms search_token_ok[OF Inr] obtain l where
    l: "search_loop token url query fromDate maxResults Null [] (batch_answers w) = Some l" and
    r: "r = finally_block (write_answer w) (catch_block url query (before ?evs l))"
    by auto
  from finish_run[of "before ?evs l" "write_answer w" url query] obtain logged data where
    f: "JSON_stringify (tweets_value (run_tweets (before ?evs l))) = Some data"
       "trace r = trace (before ?evs l) @ logged @ [WriteFile OUTFILE data]"
       "writes logged = []" "batch_requests logged = []"
       "run_tweets r = run_tweets (before ?evs l)"
       "outcome r = (case write_answer w of Some err \<Rightarrow> Inl err | None \<Rightarrow> outcome (before ?evs l))"
    unfolding r by blast
  have wl: "writes (trace l) = []" using search_loop_Some[OF l] by simp
  have "JSON_stringify (tweets_value (run_tweets r)) = Some data"
    using f(1,5) by simp
  moreover have "trace r = (?evs @ trace l @ logged) @ [WriteFile OUTFILE data]"
    using f(2) by simp
  moreover have "writes (?evs @ trace l @ logged) = []"
    using f(3) wl by (simp add: writes_append getTwitterToken_quiet)
  moreover have "batch_requests (?evs @ trace l @ logged) = batch_requests (trace l)"
    using f(4) by (simp add: batch_requests_append getTwitterToken_quiet)
  moreover have "run_tweets r = run_tweets l" using f(5) by simp
  moreover have "outcome r = (case write_answer w of Some e \<Rightarrow> Inl e | None \<Rightarrow> outcome l)"
    using f(6) by (simp split: option.splits)
  ultimately show ?thesis unfolding Inr using l by (simp only: sum.case) blast
qed

lemma search_None_iff:
  "search w url query fromDate maxResults = None \<longleftrightarrow>
     (\<exists>token. snd (getTwitterToken AUTH_URL (consumerToken w) (token_answer w)) = Inr token) \<and>
     list_all continues (batch_answers w)"
proof (cases "snd (getTwitterToken AUTH_URL (consumerToken w) (token_answer w))")
  case (Inl err)
  then show ?thesis using search_token_error[OF Inl] by simp
next
  case (Inr token)
  then show ?thesis using search_token_ok[OF Inr] by (simp add: search_loop_None_iff)
qed

lemma batch_requests_snoc_write:
  "batch_requests (evs @ [WriteFile file data]) = batch_requests evs"
  by (simp add: batch_requests_append)

lemma next_of_request:
  "map_of (request_object query fromDate maxResults nxt) ''next'' = (if truthy nxt then Some nxt else None)"
  by (simp add: request_object_def)

lemma continues_truthy: "continues answer \<Longrightarrow> truthy (next_of answer)"
  by (auto simp: continues_def next_of_def split: fetch_result.splits sum.splits)

text \<open>The cursors that a finished run sends: none with the first request, then the
  \<open>next\<close> of each page after which the loop goes on.\<close>

lemma search_sent_next:
  assumes "search w url query fromDate maxResults = Some r"
      and "snd (getTwitterToken AUTH_URL (consumerToken w) (token_answer w)) = Inr token"
  shows "sent_next (trace r) = None # map (\<lambda>a. Some (next_of a)) (takeWhile continues (batch_answers w))"
proof -
  from search_Some[OF assms(1)] assms(2) obtain earlier data l where
    t: "trace r = earlier @ [WriteFile OUTFILE data]" and
    l: "search_loop token url query fromDate maxResults Null [] (batch_answers w) = Some l" and
    b: "batch_requests earlier = batch_requests (trace l)"
    by auto
  have "batch_requests (trace r)
          = map (request_object query fromDate maxResults) (Null # map next_of (takeWhile continues (batch_answers w)))"
    using search_loop_Some[OF l] t b by (simp add: batch_requests_snoc_write)
  moreover have "map_of (request_object query fromDate maxResults (next_of a)) ''next'' = Some (next_of a)"
    if "a \<in> set (takeWhile continues (batch_answers w))" for a
    using that continues_truthy[of a] by (auto simp: next_of_request dest: set_takeWhileD)
  ultimately show ?thesis
    by (simp add: sent_next_def next_of_request comp_def)
qed


section \<open>Lemmas about the JSON text\<close>


lemma nibbles: "((n div 4096 * 16 + n div 256 mod 16) * 16 + n div 16 mod 16) * 16 + n mod 16 = (n::nat)"
proof -
  have a: "n div 4096 = n div 256 div 16" by (simp add: div_mult2_eq[symmetric])
  have b: "n div 256 = n div 16 div 16" by (simp add: div_mult2_eq[symmetric])
  have "n div 256 div 16 * 16 + n div 256 mod 16 = n div 256" by (rule div_mult_mod_eq)
  then have 1: "n div 4096 * 16 + n div 256 mod 16 = n div 256" by (simp only: a)
  have "n div 16 div 16 * 16 + n div 16 mod 16 = n div 16" by (rule div_mult_mod_eq)
  then have 2: "n div 256 * 16 + n div 16 mod 16 = n div 16" by (simp only: b)
  have 3: "n div 16 * 16 + n mod 16 = n" by (rule div_mult_mod_eq)
  show ?thesis by (simp only: 1 2 3)
qed

lemma hexval_hexdigit: "d < 16 \<Longrightarrow> hexval (hexdigit d) = Some d"
proof -
  assume "d < 16"
  then have "d = 0 \<or> d = 1 \<or> d = 2 \<or> d = 3 \<or> d = 4 \<or> d = 5 \<or> d = 6 \<or> d = 7 \<or>
             d = 8 \<or> d = 9 \<or> d = 10 \<or> d = 11 \<or> d = 12 \<or> d = 13 \<or> d = 14 \<or> d = 15"
    by arith
  then show ?thesis
    by (elim disjE) (simp_all add: hexdigit_def hexval_def)
qed

lemma hex4_unicode_escape:
  "hex4 (hexdigit (unat c div 4096)) (hexdigit (unat c div 256 mod 16))
        (hexdigit (unat c div 16 mod 16)) (hexdigit (unat c mod 16)) = Some c"
proof -
  have "unat c < 2 ^ LENGTH(16)" by (rule unsigned_less)
  then have "unat c div 4096 < 16" by simp
  then have 3: "hexval (hexdigit (unat c div 4096)) = Some (unat c div 4096)"
    by (rule hexval_hexdigit)
  have 2: "hexval (hexdigit (unat c div 256 mod 16)) = Some (unat c div 256 mod 16)"
    by (rule hexval_hexdigit) simp
  have 1: "hexval (hexdigit (unat c div 16 mod 16)) = Some (unat c div 16 mod 16)"
    by (rule hexval_hexdigit) simp
  have 0: "hexval (hexdigit (unat c mod 16)) = Some (unat c mod 16)"
    by (rule hexval_hexdigit) simp
  have "hex4 (hexdigit (unat c div 4096)) (hexdigit (unat c div 256 mod 16))
        (hexdigit (unat c div 16 mod 16)) (hexdigit (unat c mod 16))
      = Some (of_nat (((unat c div 4096 * 16 + unat c div 256 mod 16) * 16 + unat c div 16 mod 16) * 16
                       + unat c mod 16))"
    by (simp only: hex4_def 0 1 2 3 prod.case option.case)
  also have "\<dots> = Some (of_nat (unat c))" by (simp only: nibbles)
  also have "\<dots> = Some c" by simp
  finally show ?thesis .
qed

lemma parse_string_plain:
  "0x20 \<le> c \<Longrightarrow> c \<noteq> 0x22 \<Longrightarrow> c \<noteq> 0x5C \<Longrightarrow>
   parse_string (c # cs) = map_option (\<lambda>(s, r). (c # s, r)) (parse_string cs)"
  by (simp add: not_less[symmetric])

lemma parse_string_unicode_escape:
  "parse_string (unicode_escape c @ cs) = map_option (\<lambda>(s, r). (c # s, r)) (parse_string cs)"
  by (simp add: unicode_escape_def Let_def hex4_unicode_escape)

lemma parse_string_quote_unit:
  "parse_string (quote_unit c @ cs) = map_option (\<lambda>(s, r). (c # s, r)) (parse_string cs)"
proof -
  consider "c = 0x08" | "c = 0x09" | "c = 0x0A" | "c = 0x0C" | "c = 0x0D" | "c = 0x22" | "c = 0x5C"
    | "c \<noteq> 0x08" "c \<noteq> 0x09" "c \<noteq> 0x0A" "c \<noteq> 0x0C" "c \<noteq> 0x0D" "c \<noteq> 0x22" "c \<noteq> 0x5C"
      "c < 0x20 \<or> is_high_surrogate c \<or> is_low_surrogate c"
    | "c \<noteq> 0x08" "c \<noteq> 0x09" "c \<noteq> 0x0A" "c \<noteq> 0x0C" "c \<noteq> 0x0D" "c \<noteq> 0x22" "c \<noteq> 0x5C"
      "\<not> (c < 0x20 \<or> is_high_surrogate c \<or> is_low_surrogate c)"
    by blast
  then show ?thesis
  proof cases
    case 8
    then have "quote_unit c = unicode_escape c" by (simp add: quote_unit_def)
    then show ?thesis by (simp only: parse_string_unicode_escape)
  next
    case 9
    then have q: "quote_unit c = [c]" by (simp add: quote_unit_def)
    from 9 have "0x20 \<le> c" by (simp add: not_less)
    from parse_string_plain[OF this 9(6) 9(7)] show ?thesis unfolding q by simp
  qed (simp_all add: quote_unit_def escape_char_def)
qed

lemma parse_string_quote_units:
  "parse_string (quote_units s @ 0x22 # rest) = Some (s, rest)"
proof (induction s rule: quote_units.induct)
  case 1
  show ?case by simp
next
  case (2 c)
  show ?case by (simp only: quote_units.simps parse_string_quote_unit) simp
next
  case (3 c d cs)
  show ?case
  proof (cases "is_high_surrogate c \<and> is_low_surrogate d")
    case True
    then have c: "0x20 \<le> c" "c \<noteq> 0x22" "c \<noteq> 0x5C" and d: "0x20 \<le> d" "d \<noteq> 0x22" "d \<noteq> 0x5C"
      by (auto simp: is_high_surrogate_def is_low_surrogate_def word_le_nat_alt)
    have "quote_units (c # d # cs) = c # d # quote_units cs" using True by simp
    then show ?thesis
      using 3(1)[OF True]
      by (simp only: append_Cons parse_string_plain[OF c] parse_string_plain[OF d]) simp
  next
    case False
    then have "quote_units (c # d # cs) = quote_unit c @ quote_units (d # cs)"
      by (simp only: quote_units.simps if_False)
    then show ?thesis
      using 3(2)[OF False]
      by (simp only: append_assoc parse_string_quote_unit) simp
  qed
qed

lemma stringify_tweet: "stringify gap (tweet_value t) = Some (tweet_json t)"
  by (simp add: tweet_value_def tweet_json_def QuoteJSONString_def) (simp add: js_def)

lemma stringify_tweets:
  "JSON_stringify (tweets_value ts)
     = Some (if ts = [] then [0x5B, 0x5D]
             else 0x5B # 0x0A # gap @ join (0x2C # 0x0A # gap) (map tweet_json ts) @ [0x0A, 0x5D])"
  by (simp add: JSON_stringify_def tweets_value_def stringify_tweet comp_def) (simp add: js_def)

lemma skip_ws_gap [simp]:
  "skip_ws (gap @ cs) = skip_ws cs"
  "skip_ws (0x0A # cs) = skip_ws cs"
  "skip_ws (0x20 # cs) = skip_ws cs"
  "skip_ws (0x22 # cs) = 0x22 # cs"
  "skip_ws (0x2C # cs) = 0x2C # cs"
  "skip_ws (0x3A # cs) = 0x3A # cs"
  "skip_ws (0x7B # cs) = 0x7B # cs"
  "skip_ws (0x7D # cs) = 0x7D # cs"
  "skip_ws (0x5D # cs) = 0x5D # cs"
  "skip_ws (0x5B # cs) = 0x5B # cs"
  "skip_ws [] = []"
  by (simp_all add: skip_ws_def gap_def js_def is_json_ws_def)

lemma key_text: "quote_units (js ''text'') = js ''text''"
  by (simp add: js_def quote_unit_def is_high_surrogate_def is_low_surrogate_def)

lemma key_created_at: "quote_units (js ''created_at'') = js ''created_at''"
  by (simp add: js_def quote_unit_def is_high_surrogate_def is_low_surrogate_def)

lemma tweet_keys:
  "\<not> is_index_key (js ''text'')" "\<not> is_index_key (js ''created_at'')" "js ''text'' \<noteq> js ''created_at''"
  by (simp_all add: js_def is_index_key_def is_digit_def)

lemma parse_tweet:
  "parse_value (Suc (Suc (Suc (Suc n)))) (tweet_json t @ rest) = Parsed (tweet_value t) rest"
  by (simp add: tweet_json_def parse_string_quote_units make_object_def tweet_keys tweet_value_def)


lemma join_Cons:
  "join sep (x # xs) = (if xs = [] then x else x @ sep @ join sep xs)"
  by (cases xs) simp_all

lemma join_tweets_starts:
  "ts \<noteq> [] \<Longrightarrow> \<exists>cs. join sep (map tweet_json ts) = 0x7B # cs"
  by (cases ts) (simp_all add: join_Cons tweet_json_def)

lemma length_join_tweets: "length ts \<le> length (join sep (map tweet_json ts))"
proof (induction ts)
  case Nil
  show ?case by simp
next
  case (Cons t ts)
  have "1 \<le> length (tweet_json t)" by (simp add: tweet_json_def)
  then show ?case
    using Cons by (simp add: join_Cons)
qed

text \<open>The elements of the array: one unit of depth for each element, four for a tweet.\<close>

lemma parse_elements_tweets:
  "ts \<noteq> [] \<Longrightarrow>
   parse_elements (length ts + 4 + n) (join (0x2C # 0x0A # gap) (map tweet_json ts) @ 0x0A # 0x5D # rest)
     = Parsed (map tweet_value ts) rest"
proof (induction ts arbitrary: n)
  case Nil
  then show ?case by simp
next
  case (Cons t ts)
  show ?case
  proof (cases "ts = []")
    case True
    have fuel: "length [t] + 4 + n = Suc (Suc (Suc (Suc (Suc n))))" by simp
    have "parse_elements (length [t] + 4 + n) (join (0x2C # 0x0A # gap) (map tweet_json [t]) @ 0x0A # 0x5D # rest)
            = Parsed (map tweet_value [t]) rest"
      unfolding fuel by (simp add: parse_tweet)
    then show ?thesis unfolding True .
  next
    case False
    have fuel: "length (t # ts) + 4 + n = Suc (Suc (Suc (Suc (Suc (length ts + n)))))" by simp
    from join_tweets_starts[OF False] obtain cs where
      st: "join (0x2C # 0x0A # gap) (map tweet_json ts) = 0x7B # cs" by blast
    have skip: "skip_ws (join (0x2C # 0x0A # gap) (map tweet_json ts) @ 0x0A # 0x5D # rest)
                  = join (0x2C # 0x0A # gap) (map tweet_json ts) @ 0x0A # 0x5D # rest"
      by (simp add: st)
    have eq: "Suc (Suc (Suc (Suc (length ts + n)))) = length ts + 4 + n" by simp
    have IH: "parse_elements (Suc (Suc (Suc (Suc (length ts + n)))))
                (join (0x2C # 0x0A # gap) (map tweet_json ts) @ 0x0A # 0x5D # rest)
              = Parsed (map tweet_value ts) rest"
      unfolding eq by (rule Cons.IH[OF False])
    have layout: "join (0x2C # 0x0A # gap) (map tweet_json (t # ts)) @ 0x0A # 0x5D # rest
                  = tweet_json t @ 0x2C # 0x0A # gap @ join (0x2C # 0x0A # gap) (map tweet_json ts) @ 0x0A # 0x5D # rest"
      using False by (simp add: join_Cons)
    have "parse_elements (Suc (Suc (Suc (Suc (Suc (length ts + n))))))
            (tweet_json t @ 0x2C # 0x0A # gap @ join (0x2C # 0x0A # gap) (map tweet_json ts) @ 0x0A # 0x5D # rest)
          = (case parse_elements (Suc (Suc (Suc (Suc (length ts + n)))))
                    (join (0x2C # 0x0A # gap) (map tweet_json ts) @ 0x0A # 0x5D # rest) of
               Parsed vs rest' \<Rightarrow> Parsed (tweet_value t # vs) rest'
             | Syntax \<Rightarrow> Syntax
             | Unmodelled \<Rightarrow> Unmodelled)"
      by (subst parse_elements.simps(2), simp only: parse_tweet presult.case)
         (simp add: skip del: parse_elements.simps parse_value.simps parse_members.simps)
    then show ?thesis
      unfolding fuel layout by (simp only: IH presult.case list.map)
  qed
qed

lemma parse_value_array:
  assumes "ts \<noteq> []"
  shows "parse_value (Suc m) (0x5B # 0x0A # gap @ join (0x2C # 0x0A # gap) (map tweet_json ts) @ [0x0A, 0x5D])
           = (case parse_elements m (join (0x2C # 0x0A # gap) (map tweet_json ts) @ [0x0A, 0x5D]) of
                Parsed vs rest \<Rightarrow> Parsed (Arr vs) rest
              | Syntax \<Rightarrow> Syntax
              | Unmodelled \<Rightarrow> Unmodelled)"
proof -
  from join_tweets_starts[OF assms] obtain cs where
    st: "join (0x2C # 0x0A # gap) (map tweet_json ts) = 0x7B # cs" by blast
  show ?thesis by (simp add: st)
qed

text \<open>The text of the array \<open>tweets\<close> parses back to the array.\<close>

lemma JSON_parse_stringify:
  assumes "JSON_stringify (tweets_value ts) = Some data"
  shows "JSON_parse data = Some (Inr (tweets_value ts))"
proof (cases "ts = []")
  case True
  with assms have "data = [0x5B, 0x5D]" by (simp add: stringify_tweets)
  then show ?thesis using True by (simp add: JSON_parse_def tweets_value_def)
next
  case False
  with assms have data: "data = 0x5B # 0x0A # gap @ join (0x2C # 0x0A # gap) (map tweet_json ts) @ [0x0A, 0x5D]"
    by (simp add: stringify_tweets)
  have "length ts + 4 \<le> length data"
    using length_join_tweets[of ts "0x2C # 0x0A # gap"] by (simp add: data)
  then obtain n where n: "length data = length ts + 4 + n"
    using le_Suc_ex by blast
  have sk: "skip_ws data = data" by (simp add: data)
  have "parse_value (Suc (length data)) data
          = (case parse_elements (length data) (join (0x2C # 0x0A # gap) (map tweet_json ts) @ [0x0A, 0x5D]) of
                Parsed vs rest \<Rightarrow> Parsed (Arr vs) rest
              | Syntax \<Rightarrow> Syntax
              | Unmodelled \<Rightarrow> Unmodelled)"
    using parse_value_array[OF False, of "length data"] by (simp only: data[symmetric])
  also have "\<dots> = Parsed (Arr (map tweet_value ts)) []"
    unfolding n by (simp only: parse_elements_tweets[OF False] presult.case)
  finally have "parse_value (Suc (length data)) (skip_ws data) = Parsed (Arr (map tweet_value ts)) []"
    by (simp only: sk)
  then show ?thesis by (simp add: JSON_parse_def tweets_value_def)
qed

lemma tweets_value_inj: "tweets_value ts = tweets_value ts' \<longleftrightarrow> ts = ts'"
proof
  assume "tweets_value ts = tweets_value ts'"
  then have "map tweet_value ts = map tweet_value ts'" by (simp add: tweets_value_def)
  moreover have "inj tweet_value"
    by (rule injI) (simp add: tweet_value_def)
  ultimately show "ts = ts'" by (simp add: inj_map_eq_map)
qed simp


section \<open>The normalization of a tweet\<close>




text \<open>
  C6 (as stated, refuted). Normalizing \<open>@a\<close> gives \<open>a\<close> after a space; normalizing that
  text again trims the space away.
\<close>

theorem normalize_text_not_idempotent_counterexample:
  "normalize_text (normalize_text (js ''@a'')) \<noteq> normalize_text (js ''@a'')"
  by (simp add: normalize_text_def trim_def js_def isWhiteSpace_def isMatched_def)

text \<open>
  C6 (amended). Applying the normalization to its own output only trims it: the second
  application leaves the text unchanged whenever the trimmed raw text neither begins nor
  ends with \<open>@\<close> or \<open>#\<close>, and from the second application on the normalization is a
  no-op for every raw text.
\<close>

theorem normalize_text_idempotent_amended:
  "normalize_text (normalize_text s) = trim (normalize_text s) \<and>
   normalize_text (normalize_text (normalize_text s)) = normalize_text (normalize_text s) \<and>
   ((trim s = [] \<or>
     (hd (trim s) \<noteq> 0x40 \<and> hd (trim s) \<noteq> 0x23 \<and> last (trim s) \<noteq> 0x40 \<and> last (trim s) \<noteq> 0x23)) \<longrightarrow>
    normalize_text (normalize_text s) = normalize_text s)"
proof -
  have two: "normalize_text (normalize_text t) = trim (normalize_text t)" for t
    by (rule normalize_text_twice)
  have "normalize_text (normalize_text (normalize_text s)) = trim (normalize_text (normalize_text s))"
    by (rule two)
  also have "\<dots> = trim (trim (normalize_text s))"
    by (simp only: two[of s])
  also have "\<dots> = trim (normalize_text s)"
    by (rule trim_trim)
  also have "\<dots> = normalize_text (normalize_text s)"
    by (simp only: two[of s])
  finally have three:
    "normalize_text (normalize_text (normalize_text s)) = normalize_text (normalize_text s)" .
  have fixed: "(trim s = [] \<or>
     (hd (trim s) \<noteq> 0x40 \<and> hd (trim s) \<noteq> 0x23 \<and> last (trim s) \<noteq> 0x40 \<and> last (trim s) \<noteq> 0x23)) \<longrightarrow>
    normalize_text (normalize_text s) = normalize_text s"
    using no_outer_ws_normalize_text[of s] by (simp add: two no_outer_ws_iff)
  from two three fixed show ?thesis by blast
qed

theorem normalize_text_idempotent_amended_witness:
  "normalize_text (normalize_text (js '' Hi @you #tag '')) = normalize_text (js '' Hi @you #tag '') \<and>
   normalize_text (js '' Hi @you #tag '') = js ''Hi  you  tag''"
proof -
  let ?s = "js '' Hi @you #tag ''"
  have n: "normalize_text ?s = js ''Hi  you  tag''"
    by (simp add: normalize_text_def trim_def js_def isWhiteSpace_def isMatched_def)
  have t: "trim ?s = js ''Hi @you #tag''"
    by (simp add: trim_def js_def isWhiteSpace_def)
  have o: "hd (js ''Hi @you #tag'') \<noteq> 0x40 \<and> hd (js ''Hi @you #tag'') \<noteq> 0x23 \<and>
           last (js ''Hi @you #tag'') \<noteq> 0x40 \<and> last (js ''Hi @you #tag'') \<noteq> 0x23"
    by (simp add: js_def)
  have prem: "trim ?s = [] \<or>
         (hd (trim ?s) \<noteq> 0x40 \<and> hd (trim ?s) \<noteq> 0x23 \<and> last (trim ?s) \<noteq> 0x40 \<and> last (trim ?s) \<noteq> 0x23)"
    unfolding t using o by (rule disjI2)
  note all = normalize_text_idempotent_amended[of ?s]
  from all[THEN conjunct2, THEN conjunct2] prem
  have eq: "normalize_text (normalize_text ?s) = normalize_text ?s" by (rule mp)
  from eq n show ?thesis by (rule conjI)
qed

text \<open>
  C7. The one text field that is read is chosen by the truthiness of \<open>truncated\<close> alone.
  When it is truthy the text of the tweet is the trimmed and replaced
  \<open>extended_tweet.full_text\<close>, and a TypeError is raised when that is not a string;
  otherwise it is the trimmed and replaced \<open>text\<close>, with a TypeError when that is not a
  string. Whatever the other field holds, and whether it is there at all, the result
  is the same.
\<close>

theorem normalize_reads_one_field:
  "(truthy (truncated item) \<longrightarrow>
      selected_field item = extended_tweet item \<and>
      normalize_item item =
        (case extended_tweet item of
           Some (Str s) \<Rightarrow> Inr \<lparr>text = replace (trim s), created_at = raw_created_at item\<rparr>
         | _ \<Rightarrow> Inl TypeError) \<and>
      normalize_item (item\<lparr>raw_text := other\<rparr>) = normalize_item item) \<and>
   (\<not> truthy (truncated item) \<longrightarrow>
      selected_field item = Some (raw_text item) \<and>
      normalize_item item =
        (case raw_text item of
           Str s \<Rightarrow> Inr \<lparr>text = replace (trim s), created_at = raw_created_at item\<rparr>
         | _ \<Rightarrow> Inl TypeError) \<and>
      normalize_item (item\<lparr>extended_tweet := other_object\<rparr>) = normalize_item item)"
  by (auto simp: normalize_item_def selected_text_def selected_field_def
      split: option.splits sum.splits jsval.splits)

theorem normalize_reads_one_field_witness:
  "normalize_item \<lparr>truncated = Bool True, raw_text = Str (js ''short''),
              extended_tweet = Some (Str (js ''long'')), raw_created_at = js ''Tue''\<rparr>
     = Inr \<lparr>text = js ''long'', created_at = js ''Tue''\<rparr>
   \<and> normalize_item \<lparr>truncated = Bool True, raw_text = Undefined,
              extended_tweet = Some (Str (js ''long'')), raw_created_at = js ''Tue''\<rparr>
     = Inr \<lparr>text = js ''long'', created_at = js ''Tue''\<rparr>
   \<and> normalize_item \<lparr>truncated = Bool False, raw_text = Str (js ''short''),
              extended_tweet = Some (Str (js ''long'')), raw_created_at = js ''Tue''\<rparr>
     = Inr \<lparr>text = js ''short'', created_at = js ''Tue''\<rparr>
   \<and> normalize_item \<lparr>truncated = Bool False, raw_text = Str (js ''short''),
              extended_tweet = None, raw_created_at = js ''Tue''\<rparr>
     = Inr \<lparr>text = js ''short'', created_at = js ''Tue''\<rparr>"
proof -
  let ?a = "\<lparr>truncated = Bool True, raw_text = Undefined,
          extended_tweet = Some (Str (js ''long'')), raw_created_at = js ''Tue''\<rparr>"
  let ?b = "\<lparr>truncated = Bool False, raw_text = Str (js ''short''),
          extended_tweet = None, raw_created_at = js ''Tue''\<rparr>"
  have ta: "truthy (truncated ?a)" and tb: "\<not> truthy (truncated ?b)" by simp_all
  have ua: "?a\<lparr>raw_text := Str (js ''short'')\<rparr> = \<lparr>truncated = Bool True, raw_text = Str (js ''short''),
              extended_tweet = Some (Str (js ''long'')), raw_created_at = js ''Tue''\<rparr>" by simp
  have ub: "?b\<lparr>extended_tweet := Some (Str (js ''long''))\<rparr> = \<lparr>truncated = Bool False, raw_text = Str (js ''short''),
              extended_tweet = Some (Str (js ''long'')), raw_created_at = js ''Tue''\<rparr>" by simp
  have long: "replace (trim (js ''long'')) = js ''long''"
    and short: "replace (trim (js ''short'')) = js ''short''"
    by (simp_all add: trim_def js_def isWhiteSpace_def isMatched_def)
  note a = normalize_reads_one_field[of ?a "Str (js ''short'')" None, THEN conjunct1, rule_format, OF ta]
  note b = normalize_reads_one_field[of ?b Undefined "Some (Str (js ''long''))", THEN conjunct2, rule_format, OF tb]
  have a1: "normalize_item ?a = Inr \<lparr>text = js ''long'', created_at = js ''Tue''\<rparr>"
    using a[THEN conjunct2, THEN conjunct1] by (simp add: long)
  have a2: "normalize_item (?a\<lparr>raw_text := Str (js ''short'')\<rparr>) = normalize_item ?a"
    by (rule a[THEN conjunct2, THEN conjunct2])
  have b1: "normalize_item ?b = Inr \<lparr>text = js ''short'', created_at = js ''Tue''\<rparr>"
    using b[THEN conjunct2, THEN conjunct1] by (simp add: short)
  have b2: "normalize_item (?b\<lparr>extended_tweet := Some (Str (js ''long''))\<rparr>) = normalize_item ?b"
    by (rule b[THEN conjunct2, THEN conjunct2])
  from a1 a2 b1 b2 show ?thesis unfolding ua ub by simp
qed

section \<open>The page request\<close>

text \<open>
  C9 (as stated, refuted). The error that \<open>getTweetBatch\<close> throws on a status outside
  200 to 299 is built from the status alone: two requests with different queries fail
  with the same error, so the error does not carry the query.
\<close>

theorem getTweetBatch_error_without_query_counterexample:
  "snd (getTweetBatch (js ''t'') (js ''u'') (js ''from:a'') (js ''2019'') (Str (js ''100'')) Null
          (Respond 500 (Inl SyntaxError)))
     = Inl (Error (js ''authorization request response status: 500'')) \<and>
   snd (getTweetBatch (js ''t'') (js ''u'') (js ''from:b'') (js ''2019'') (Str (js ''100'')) Null
          (Respond 500 (Inl SyntaxError)))
     = Inl (Error (js ''authorization request response status: 500''))"
  by (simp add: getTweetBatch_status ok_def) (simp add: js_def decimal.simps)

text \<open>
  C9 (amended). Whenever the search endpoint responds with a status outside 200 to 299,
  \<open>getTweetBatch\<close> fails with an error whose message ends with the status code, so that
  two such errors are equal exactly when the statuses are; the query is written to the
  error line of the console and is not part of the error.
\<close>

theorem getTweetBatch_error_carries_status:
  assumes "\<not> ok status"
  shows "snd (getTweetBatch token url query fromDate maxResults nxt (Respond status payload))
           = Inl (Error (js ''authorization request response status: '' @ decimal status)) \<and>
         last (fst (getTweetBatch token url query fromDate maxResults nxt (Respond status payload)))
           = ConsoleError (js ''getTweetBatch - query:'' @ query @ js '' - '')
               (Error (js ''authorization request response status: '' @ decimal status)) \<and>
         (\<forall>status' token' url' query' fromDate' maxResults' nxt' payload'. \<not> ok status' \<longrightarrow>
            (snd (getTweetBatch token' url' query' fromDate' maxResults' nxt' (Respond status' payload'))
               = snd (getTweetBatch token url query fromDate maxResults nxt (Respond status payload)))
            = (status' = status))"
  using assms by (auto simp: getTweetBatch_status dest: decimal_inj)

theorem getTweetBatch_error_carries_status_witness:
  "snd (getTweetBatch (js ''t'') (js ''u'') (js ''from:a'') (js ''2019'') (Str (js ''100'')) Null
          (Respond 404 (Inl SyntaxError)))
     = Inl (Error (js ''authorization request response status: 404'')) \<and>
   snd (getTweetBatch (js ''t'') (js ''u'') (js ''from:b'') (js ''2019'') (Str (js ''100'')) Null
          (Respond 500 (Inl SyntaxError)))
     \<noteq> snd (getTweetBatch (js ''t'') (js ''u'') (js ''from:a'') (js ''2019'') (Str (js ''100'')) Null
          (Respond 404 (Inl SyntaxError)))"
proof -
  have n: "\<not> ok 404" and m: "\<not> ok 500" by (simp_all add: ok_def)
  have d: "decimal 404 = js ''404''" by (simp add: js_def decimal.simps)
  note all = getTweetBatch_error_carries_status[OF n, of "js ''t''" "js ''u''" "js ''from:a''" "js ''2019''"
      "Str (js ''100'')" Null "Inl SyntaxError"]
  have 1: "snd (getTweetBatch (js ''t'') (js ''u'') (js ''from:a'') (js ''2019'') (Str (js ''100'')) Null
          (Respond 404 (Inl SyntaxError)))
     = Inl (Error (js ''authorization request response status: 404''))"
    using all[THEN conjunct1] unfolding d by (simp add: js_def)
  have "(snd (getTweetBatch (js ''t'') (js ''u'') (js ''from:b'') (js ''2019'') (Str (js ''100'')) Null
          (Respond 500 (Inl SyntaxError)))
     = snd (getTweetBatch (js ''t'') (js ''u'') (js ''from:a'') (js ''2019'') (Str (js ''100'')) Null
          (Respond 404 (Inl SyntaxError)))) = ((500::nat) = 404)"
    using all[THEN conjunct2, THEN conjunct2, rule_format, OF m] .
  then have 2: "snd (getTweetBatch (js ''t'') (js ''u'') (js ''from:b'') (js ''2019'') (Str (js ''100'')) Null
          (Respond 500 (Inl SyntaxError)))
     \<noteq> snd (getTweetBatch (js ''t'') (js ''u'') (js ''from:a'') (js ''2019'') (Str (js ''100'')) Null
          (Respond 404 (Inl SyntaxError)))" by simp
  from 1 2 show ?thesis by (rule conjI)
qed

text \<open>
  C10. The body that \<open>getTweetBatch\<close> sends has a \<open>next\<close> property exactly when the
  cursor it is given is truthy, and then with the cursor as its value; for \<open>null\<close>,
  \<open>undefined\<close> and the empty string there is none.
\<close>

theorem next_sent_iff_truthy:
  "batch_requests (fst (getTweetBatch token url query fromDate maxResults nxt answer))
     = [request_object query fromDate maxResults nxt] \<and>
   map_of (request_object query fromDate maxResults nxt) ''next''
     = (if truthy nxt then Some nxt else None) \<and>
   map_of (request_object query fromDate maxResults Null) ''next'' = None \<and>
   map_of (request_object query fromDate maxResults Undefined) ''next'' = None \<and>
   map_of (request_object query fromDate maxResults (Str [])) ''next'' = None"
  by (simp add: getTweetBatch_sent) (simp add: request_object_def)


section \<open>The run of a search\<close>

lemma sample_token:
  "snd (getTwitterToken AUTH_URL (consumerToken (sample_world answers)) (token_answer (sample_world answers)))
     = Inr (js ''tok'')"
  by (simp add: sample_world_def getTwitterToken_def Let_def ok_def)

lemma sample_page1_tweets:
  "push_items [] [sample_truncated, sample_short]
     = ([\<lparr>text = js ''long  x'', created_at = js ''d1''\<rparr>,
         \<lparr>text = js '' short'', created_at = js ''d2''\<rparr>], None)"
  by (simp add: sample_truncated_def sample_short_def normalize_item_def selected_text_def
      selected_field_def trim_def js_def isWhiteSpace_def isMatched_def)

lemma sample_page1_continues: "continues (Respond 200 (Inr sample_page1))"
  using sample_page1_tweets
  by (simp add: continues_def ok_def sample_page1_def js_def del: push_items.simps)

lemma sample_page2_stops: "\<not> continues (Respond 200 (Inr sample_page2))"
  by (simp add: continues_def sample_page2_def)

text \<open>
  A page whose \<open>results\<close> has no length is passed over like an empty page: the loop
  goes on with its cursor.
\<close>

lemma page_without_length_continues:
  "truthy nxt \<Longrightarrow> continues (Respond 200 (Inr \<lparr>results = NoLength, next = nxt\<rparr>))"
  by (simp add: continues_def ok_def)

lemma search_follows_cursor_without_length:
  "map_option (sent_next \<circ> trace)
     (search (sample_world [Respond 200 (Inr \<lparr>results = NoLength, next = Str (js ''abc'')\<rparr>),
                            Respond 200 (Inr sample_page2)])
        (js ''u'') (js ''q'') (js ''201910010000'') (Str (js ''100'')))
     = Some [None, Some (Str (js ''abc''))]"
proof -
  let ?p = "Respond 200 (Inr \<lparr>results = NoLength, next = Str (js ''abc'')\<rparr>) :: batch fetch_result"
  let ?w = "sample_world [?p, Respond 200 (Inr sample_page2)]"
  have go: "continues ?p" by (rule page_without_length_continues) (simp add: js_def)
  have b: "batch_answers ?w = [?p, Respond 200 (Inr sample_page2)]"
    by (simp add: sample_world_def)
  have "\<not> list_all continues (batch_answers ?w)" unfolding b by (simp add: sample_page2_stops)
  then obtain r where run: "search ?w (js ''u'') (js ''q'') (js ''201910010000'') (Str (js ''100'')) = Some r"
    using search_None_iff[of ?w "js ''u''" "js ''q''" "js ''201910010000''" "Str (js ''100'')"] by auto
  have "sent_next (trace r) = [None, Some (Str (js ''abc''))]"
    using search_sent_next[OF run sample_token] unfolding b using go sample_page2_stops
    by (simp add: next_of_def)
  with run show ?thesis by simp
qed

text \<open>
  C1. A run of \<open>search\<close> ends unless every listed answer makes the loop ask for one
  more page. Every run that ends, with the value returned or with an error from the
  token request, a page request or the normalization, calls \<open>writeFile\<close> exactly once, as
  its last action, on the result file and with the text of the array \<open>tweets\<close> as it
  stands: the tweets pushed for all pages consumed, or none when the token request
  failed. In particular, when the first page is processed and the request for the
  second page fails, the tweets of the first page are written and the run fails with
  that error.
\<close>

theorem search_writes_accumulator_last:
  "(search w url query fromDate maxResults = None \<longleftrightarrow>
      (\<exists>token. snd (getTwitterToken AUTH_URL (consumerToken w) (token_answer w)) = Inr token) \<and>
      list_all continues (batch_answers w)) \<and>
   (\<forall>r. search w url query fromDate maxResults = Some r \<longrightarrow>
      (\<exists>earlier data.
         JSON_stringify (tweets_value (run_tweets r)) = Some data \<and>
         trace r = earlier @ [WriteFile OUTFILE data] \<and> writes earlier = []) \<and>
      run_tweets r =
        (case snd (getTwitterToken AUTH_URL (consumerToken w) (token_answer w)) of
           Inl err \<Rightarrow> []
         | Inr token \<Rightarrow> concat (map page_tweets (consumed (batch_answers w))))) \<and>
   (\<forall>token status page items ts answer err rest.
      snd (getTwitterToken AUTH_URL (consumerToken w) (token_answer w)) = Inr token \<and>
      batch_answers w = Respond status (Inr page) # answer # rest \<and>
      ok status \<and> items_of (results page) = Some items \<and> push_items [] items = (ts, None) \<and>
      truthy (next page) \<and>
      snd (getTweetBatch token url query fromDate maxResults (next page) answer) = Inl err \<longrightarrow>
      (\<exists>r earlier data.
         search w url query fromDate maxResults = Some r \<and> run_tweets r = ts \<and>
         JSON_stringify (tweets_value ts) = Some data \<and>
         trace r = earlier @ [WriteFile OUTFILE data] \<and> writes earlier = [] \<and>
         outcome r = (case write_answer w of Some e \<Rightarrow> Inl e | None \<Rightarrow> Inl err)))"
proof (intro conjI allI impI)
  show "search w url query fromDate maxResults = None \<longleftrightarrow>
      (\<exists>token. snd (getTwitterToken AUTH_URL (consumerToken w) (token_answer w)) = Inr token) \<and>
      list_all continues (batch_answers w)"
    by (rule search_None_iff)
next
  fix r assume run: "search w url query fromDate maxResults = Some r"
  from search_Some[OF run]
  show "\<exists>earlier data.
         JSON_stringify (tweets_value (run_tweets r)) = Some data \<and>
         trace r = earlier @ [WriteFile OUTFILE data] \<and> writes earlier = []"
    by blast
  show "run_tweets r =
        (case snd (getTwitterToken AUTH_URL (consumerToken w) (token_answer w)) of
           Inl err \<Rightarrow> []
         | Inr token \<Rightarrow> concat (map page_tweets (consumed (batch_answers w))))"
  proof (cases "snd (getTwitterToken AUTH_URL (consumerToken w) (token_answer w))")
    case (Inl err)
    with search_Some[OF run] show ?thesis by auto
  next
    case (Inr token)
    with search_Some[OF run] obtain l where
      l: "search_loop token url query fromDate maxResults Null [] (batch_answers w) = Some l"
      and "run_tweets r = run_tweets l" by auto
    with search_loop_Some[OF l] show ?thesis using Inr by simp
  qed
next
  fix token status page items ts answer err rest
  assume h: "snd (getTwitterToken AUTH_URL (consumerToken w) (token_answer w)) = Inr token \<and>
      batch_answers w = Respond status (Inr page) # answer # rest \<and>
      ok status \<and> items_of (results page) = Some items \<and> push_items [] items = (ts, None) \<and>
      truthy (next page) \<and>
      snd (getTweetBatch token url query fromDate maxResults (next page) answer) = Inl err"
  then have tok: "snd (getTwitterToken AUTH_URL (consumerToken w) (token_answer w)) = Inr token"
    and answers: "batch_answers w = Respond status (Inr page) # answer # rest"
    and first: "ok status" "items_of (results page) = Some items" "push_items [] items = (ts, None)" "truthy (next page)"
    and second: "snd (getTweetBatch token url query fromDate maxResults (next page) answer) = Inl err"
    by simp_all
  have c1: "continues (Respond status (Inr page))"
    using first by (simp add: continues_def)
  have c2: "\<not> continues answer"
    using second getTweetBatch_page[of token url query fromDate maxResults "next page" answer]
    by (auto simp: continues_def split: fetch_result.splits sum.splits)
  have pt: "page_tweets (Respond status (Inr page)) = ts"
    using first by (simp add: page_tweets_def)
  have "page_tweets answer = []"
    using second getTweetBatch_page[of token url query fromDate maxResults "next page" answer]
    by (auto simp: page_tweets_def split: fetch_result.splits sum.splits)
  from search_loop_stops[OF c2, of token url query fromDate maxResults "next page" ts rest] second
  obtain l' where
    l': "search_loop token url query fromDate maxResults (next page) ts (answer # rest) = Some l'"
    and tw: "run_tweets l' = ts @ page_tweets answer" and out: "outcome l' = Inl err"
    by blast
  let ?l = "before (fst (getTweetBatch token url query fromDate maxResults Null (Respond status (Inr page))) @ rateLimiter 3) l'"
  have l: "search_loop token url query fromDate maxResults Null [] (batch_answers w) = Some ?l"
    unfolding answers search_loop_continues[OF c1] using l' pt by (simp add: next_of_def)
  from search_None_iff[of w url query fromDate maxResults] l search_loop_None_iff[of token url query fromDate maxResults Null "[]" "batch_answers w"]
  obtain r where run: "search w url query fromDate maxResults = Some r" by auto
  from search_Some[OF run] tok l obtain earlier data where
    "JSON_stringify (tweets_value (run_tweets r)) = Some data"
    "trace r = earlier @ [WriteFile OUTFILE data]" "writes earlier = []"
    "run_tweets r = run_tweets ?l"
    "outcome r = (case write_answer w of Some e \<Rightarrow> Inl e | None \<Rightarrow> outcome ?l)"
    by auto
  with run tw out \<open>page_tweets answer = []\<close>
  show "\<exists>r earlier data.
         search w url query fromDate maxResults = Some r \<and> run_tweets r = ts \<and>
         JSON_stringify (tweets_value ts) = Some data \<and>
         trace r = earlier @ [WriteFile OUTFILE data] \<and> writes earlier = [] \<and>
         outcome r = (case write_answer w of Some e \<Rightarrow> Inl e | None \<Rightarrow> Inl err)"
    by (auto split: option.splits)
qed

theorem search_writes_accumulator_last_witness:
  "\<exists>r earlier data.
     search (sample_world [Respond 200 (Inr sample_page1), Reject (Rejected (js ''ECONNRESET''))])
       (js ''u'') (js ''q'') (js ''201910010000'') (Str (js ''100'')) = Some r \<and>
     run_tweets r = [\<lparr>text = js ''long  x'', created_at = js ''d1''\<rparr>,
                     \<lparr>text = js '' short'', created_at = js ''d2''\<rparr>] \<and>
     JSON_stringify (tweets_value [\<lparr>text = js ''long  x'', created_at = js ''d1''\<rparr>,
                                   \<lparr>text = js '' short'', created_at = js ''d2''\<rparr>]) = Some data \<and>
     trace r = earlier @ [WriteFile OUTFILE data] \<and> writes earlier = [] \<and>
     outcome r = Inl (Rejected (js ''ECONNRESET''))"
proof -
  let ?w = "sample_world [Respond 200 (Inr sample_page1), Reject (Rejected (js ''ECONNRESET''))]"
  let ?ts = "[\<lparr>text = js ''long  x'', created_at = js ''d1''\<rparr>,
              \<lparr>text = js '' short'', created_at = js ''d2''\<rparr>]"
  have hyp: "snd (getTwitterToken AUTH_URL (consumerToken ?w) (token_answer ?w)) = Inr (js ''tok'') \<and>
      batch_answers ?w = Respond 200 (Inr sample_page1) # Reject (Rejected (js ''ECONNRESET'')) # [] \<and>
      ok 200 \<and> items_of (results sample_page1) = Some [sample_truncated, sample_short] \<and>
      push_items [] [sample_truncated, sample_short] = (?ts, None) \<and>
      truthy (next sample_page1) \<and>
      snd (getTweetBatch (js ''tok'') (js ''u'') (js ''q'') (js ''201910010000'') (Str (js ''100''))
             (next sample_page1) (Reject (Rejected (js ''ECONNRESET'')))) = Inl (Rejected (js ''ECONNRESET''))"
  proof (intro conjI)
    show "snd (getTwitterToken AUTH_URL (consumerToken ?w) (token_answer ?w)) = Inr (js ''tok'')"
      by (rule sample_token)
    show "batch_answers ?w = Respond 200 (Inr sample_page1) # Reject (Rejected (js ''ECONNRESET'')) # []"
      by (simp add: sample_world_def)
    show "ok 200" by (simp add: ok_def)
    show "items_of (results sample_page1) = Some [sample_truncated, sample_short]"
      by (simp add: sample_page1_def)
    show "push_items [] [sample_truncated, sample_short] = (?ts, None)"
      by (rule sample_page1_tweets)
    show "truthy (next sample_page1)" by (simp add: sample_page1_def js_def)
    show "snd (getTweetBatch (js ''tok'') (js ''u'') (js ''q'') (js ''201910010000'') (Str (js ''100''))
             (next sample_page1) (Reject (Rejected (js ''ECONNRESET'')))) = Inl (Rejected (js ''ECONNRESET''))"
      by (simp add: getTweetBatch_def Let_def)
  qed
  have w: "write_answer ?w = None" by (simp add: sample_world_def)
  note all = search_writes_accumulator_last[of ?w "js ''u''" "js ''q''" "js ''201910010000''" "Str (js ''100'')"]
  from all[THEN conjunct2, THEN conjunct2, rule_format, OF hyp]
  show ?thesis unfolding w by simp
qed

text \<open>
  C2. When the loop has gone on after each of the answers \<open>pre\<close> and the next answer is
  a page that \<open>getTweetBatch\<close> returns with a falsy \<open>next\<close>, the run ends, whatever
  answers are left: the request for that page is the last request of the run.
\<close>

theorem no_fetch_after_last_page:
  assumes "snd (getTwitterToken AUTH_URL (consumerToken w) (token_answer w)) = Inr token"
      and "batch_answers w = pre @ answer # rest"
      and "list_all continues pre"
      and "snd (getTweetBatch token url query fromDate maxResults cursor answer) = Inr page"
      and "\<not> truthy (next page)"
  shows "\<exists>r. search w url query fromDate maxResults = Some r \<and>
             length (batch_requests (trace r)) = Suc (length pre) \<and>
             sent_next (trace r) = None # map (\<lambda>a. Some (next_of a)) pre"
proof -
  from assms(4) obtain status where a: "answer = Respond status (Inr page)"
    using getTweetBatch_page[of token url query fromDate maxResults cursor answer page] by auto
  have stop: "\<not> continues answer" using a assms(5) by (simp add: continues_def)
  have tw: "takeWhile continues (batch_answers w) = pre"
    unfolding assms(2) using assms(3) stop by (simp add: takeWhile_append2 list_all_iff)
  have "\<not> list_all continues (batch_answers w)"
    unfolding assms(2) using stop by simp
  then obtain r where run: "search w url query fromDate maxResults = Some r"
    using search_None_iff[of w url query fromDate maxResults] by auto
  have sn: "sent_next (trace r) = None # map (\<lambda>a. Some (next_of a)) pre"
    using search_sent_next[OF run assms(1)] tw by simp
  then have "length (sent_next (trace r)) = Suc (length pre)" by simp
  then have "length (batch_requests (trace r)) = Suc (length pre)" by (simp add: sent_next_def)
  with run sn show ?thesis by blast
qed

theorem no_fetch_after_last_page_witness:
  "\<exists>r. search (sample_world [Respond 200 (Inr sample_page1), Respond 200 (Inr sample_page2),
                               Respond 200 (Inr sample_page1)])
           (js ''u'') (js ''q'') (js ''201910010000'') (Str (js ''100'')) = Some r \<and>
       length (batch_requests (trace r)) = 2 \<and>
       sent_next (trace r) = [None, Some (Str (js ''abc''))]"
proof -
  let ?w = "sample_world [Respond 200 (Inr sample_page1), Respond 200 (Inr sample_page2),
                          Respond 200 (Inr sample_page1)]"
  have 1: "snd (getTwitterToken AUTH_URL (consumerToken ?w) (token_answer ?w)) = Inr (js ''tok'')"
    by (rule sample_token)
  have 2: "batch_answers ?w = [Respond 200 (Inr sample_page1)] @ Respond 200 (Inr sample_page2) #
             [Respond 200 (Inr sample_page1)]"
    by (simp add: sample_world_def)
  have 3: "list_all continues [Respond 200 (Inr sample_page1)]"
    by (simp add: sample_page1_continues)
  have 4: "snd (getTweetBatch (js ''tok'') (js ''u'') (js ''q'') (js ''201910010000'') (Str (js ''100''))
             (Str (js ''abc'')) (Respond 200 (Inr sample_page2))) = Inr sample_page2"
    by (simp add: getTweetBatch_def Let_def ok_def)
  have 5: "\<not> truthy (next sample_page2)" by (simp add: sample_page2_def)
  have n: "next_of (Respond 200 (Inr sample_page1)) = Str (js ''abc'')"
    by (simp add: next_of_def sample_page1_def)
  from no_fetch_after_last_page[OF 1 2 3 4 5]
  show ?thesis by (simp add: n numeral_2_eq_2)
qed

text \<open>
  C3 (as stated, refuted). A page that carries a cursor but holds an item without text
  raises a TypeError in the normalization: the run fails after this one request and the
  cursor is never sent.
\<close>

theorem next_cursor_not_followed_counterexample:
  "map_option (sent_next \<circ> trace)
     (search (sample_world [Respond 200 (Inr \<lparr>results = Items [sample_broken], next = Str (js ''abc'')\<rparr>),
                            Respond 200 (Inr sample_page2)])
        (js ''u'') (js ''q'') (js ''201910010000'') (Str (js ''100'')))
     = Some [None]"
proof -
  let ?w = "sample_world [Respond 200 (Inr \<lparr>results = Items [sample_broken], next = Str (js ''abc'')\<rparr>),
                          Respond 200 (Inr sample_page2)]"
  have stop: "\<not> continues (Respond 200 (Inr \<lparr>results = Items [sample_broken], next = Str (js ''abc'')\<rparr>))"
    by (simp add: continues_def sample_broken_def normalize_item_def selected_text_def selected_field_def)
  have b: "batch_answers ?w = [Respond 200 (Inr \<lparr>results = Items [sample_broken], next = Str (js ''abc'')\<rparr>),
                          Respond 200 (Inr sample_page2)]"
    by (simp add: sample_world_def)
  have "\<not> list_all continues (batch_answers ?w)" unfolding b using stop by simp
  then obtain r where run: "search ?w (js ''u'') (js ''q'') (js ''201910010000'') (Str (js ''100'')) = Some r"
    using search_None_iff[of ?w "js ''u''" "js ''q''" "js ''201910010000''" "Str (js ''100'')"] by auto
  have "sent_next (trace r) = [None]"
    using search_sent_next[OF run sample_token] unfolding b using stop by simp
  with run show ?thesis by simp
qed

text \<open>
  C3 (amended). When the loop has gone on after each of the answers \<open>pre\<close> and the next
  answer is a page that \<open>getTweetBatch\<close> returns with a truthy \<open>next\<close> and that the loop
  processes without error (reading the length of its \<open>results\<close> does not raise and its
  items, if any, are all normalized), the request after the one for this page carries
  this \<open>next\<close> value, unchanged, and it is the only request made on account of this
  page: the run, which ends unless all the answers left make the loop go on, sends one
  request more than for the answers before plus one for each answer left after which
  the loop goes on.
\<close>

theorem next_cursor_passed_unchanged:
  assumes "snd (getTwitterToken AUTH_URL (consumerToken w) (token_answer w)) = Inr token"
      and "batch_answers w = pre @ answer # rest"
      and "list_all continues pre"
      and "snd (getTweetBatch token url query fromDate maxResults cursor answer) = Inr page"
      and "truthy (next page)"
      and "items_of (results page) = Some items"
      and "snd (push_items [] items) = None"
      and "\<not> list_all continues rest"
  shows "\<exists>r. search w url query fromDate maxResults = Some r \<and>
             sent_next (trace r) ! Suc (length pre) = Some (next page) \<and>
             length (sent_next (trace r)) = Suc (Suc (length pre)) + length (takeWhile continues rest)"
proof -
  from assms(4) obtain status where a: "answer = Respond status (Inr page)" and o: "ok status"
    using getTweetBatch_page[of token url query fromDate maxResults cursor answer page] by auto
  have go: "continues answer" using a o assms(5,6,7) by (simp add: continues_def)
  have n: "next_of answer = next page" using a by (simp add: next_of_def)
  have tw: "takeWhile continues (batch_answers w) = pre @ answer # takeWhile continues rest"
    unfolding assms(2) using assms(3) go by (simp add: takeWhile_append2 list_all_iff)
  have "\<not> list_all continues (batch_answers w)"
    unfolding assms(2) using assms(8) by simp
  then obtain r where run: "search w url query fromDate maxResults = Some r"
    using search_None_iff[of w url query fromDate maxResults] by auto
  have sn: "sent_next (trace r)
              = (None # map (\<lambda>a. Some (next_of a)) pre) @
                Some (next page) # map (\<lambda>a. Some (next_of a)) (takeWhile continues rest)"
    using search_sent_next[OF run assms(1)] tw n by simp
  have "sent_next (trace r) ! Suc (length pre) = Some (next page)"
    unfolding sn by (simp add: nth_append)
  moreover have "length (sent_next (trace r)) = Suc (Suc (length pre)) + length (takeWhile continues rest)"
    unfolding sn by simp
  ultimately show ?thesis using run by blast
qed

theorem next_cursor_passed_unchanged_witness:
  "\<exists>r. search (sample_world [Respond 200 (Inr sample_page1), Respond 200 (Inr sample_page2)])
           (js ''u'') (js ''q'') (js ''201910010000'') (Str (js ''100'')) = Some r \<and>
       sent_next (trace r) ! 1 = Some (Str (js ''abc'')) \<and>
       length (sent_next (trace r)) = 2"
proof -
  let ?w = "sample_world [Respond 200 (Inr sample_page1), Respond 200 (Inr sample_page2)]"
  have 1: "snd (getTwitterToken AUTH_URL (consumerToken ?w) (token_answer ?w)) = Inr (js ''tok'')"
    by (rule sample_token)
  have 2: "batch_answers ?w = [] @ Respond 200 (Inr sample_page1) # [Respond 200 (Inr sample_page2)]"
    by (simp add: sample_world_def)
  have 3: "list_all continues []" by simp
  have 4: "snd (getTweetBatch (js ''tok'') (js ''u'') (js ''q'') (js ''201910010000'') (Str (js ''100''))
             Null (Respond 200 (Inr sample_page1))) = Inr sample_page1"
    by (simp add: getTweetBatch_def Let_def ok_def)
  have 5: "truthy (next sample_page1)" by (simp add: sample_page1_def js_def)
  have 6: "items_of (results sample_page1) = Some [sample_truncated, sample_short]" by (simp add: sample_page1_def)
  have 7: "snd (push_items [] [sample_truncated, sample_short]) = None"
    by (simp only: sample_page1_tweets snd_conv)
  have 8: "\<not> list_all continues [Respond 200 (Inr sample_page2)]" by (simp add: sample_page2_stops)
  have n: "next sample_page1 = Str (js ''abc'')" by (simp add: sample_page1_def)
  from next_cursor_passed_unchanged[OF 1 2 3 4 5 6 7 8]
  show ?thesis by (simp add: n sample_page2_stops numeral_2_eq_2)
qed

text \<open>
  C4. When \<open>search\<close> returns a value, the value is the length of the array \<open>tweets\<close>,
  which holds the tweets of the items of all pages consumed, in order, and whose text
  is what the run has written to the result file.
\<close>

theorem search_returns_count:
  assumes "search w url query fromDate maxResults = Some r"
      and "outcome r = Inr n"
  shows "n = length (run_tweets r) \<and>
         run_tweets r = concat (map page_tweets (consumed (batch_answers w))) \<and>
         (\<exists>earlier data.
            JSON_stringify (tweets_value (run_tweets r)) = Some data \<and>
            trace r = earlier @ [WriteFile OUTFILE data] \<and> writes earlier = [])"
proof (cases "snd (getTwitterToken AUTH_URL (consumerToken w) (token_answer w))")
  case (Inl err)
  with search_Some[OF assms(1)] assms(2) show ?thesis by (auto split: option.splits)
next
  case (Inr token)
  with search_Some[OF assms(1)] obtain earlier data l where
    d: "JSON_stringify (tweets_value (run_tweets r)) = Some data"
       "trace r = earlier @ [WriteFile OUTFILE data]" "writes earlier = []" and
    l: "search_loop token url query fromDate maxResults Null [] (batch_answers w) = Some l" and
    t: "run_tweets r = run_tweets l" and
    o: "outcome r = (case write_answer w of Some e \<Rightarrow> Inl e | None \<Rightarrow> outcome l)"
    by auto
  from o assms(2) have "outcome l = Inr n" by (auto split: option.splits)
  with search_loop_Some[OF l] t
  have "n = length (run_tweets r)" "run_tweets r = concat (map page_tweets (consumed (batch_answers w)))"
    by simp_all
  with d show ?thesis by blast
qed

theorem search_returns_count_witness:
  "\<exists>r. search (sample_world [Respond 200 (Inr sample_page1), Respond 200 (Inr sample_page2)])
           (js ''u'') (js ''q'') (js ''201910010000'') (Str (js ''100'')) = Some r \<and>
       outcome r = Inr 3 \<and> length (run_tweets r) = 3"
proof -
  let ?w = "sample_world [Respond 200 (Inr sample_page1), Respond 200 (Inr sample_page2)]"
  have b: "batch_answers ?w = [Respond 200 (Inr sample_page1), Respond 200 (Inr sample_page2)]"
    and wa: "write_answer ?w = None"
    by (simp_all add: sample_world_def)
  have "\<not> list_all continues (batch_answers ?w)" unfolding b by (simp add: sample_page2_stops)
  then obtain r where run: "search ?w (js ''u'') (js ''q'') (js ''201910010000'') (Str (js ''100'')) = Some r"
    using search_None_iff[of ?w "js ''u''" "js ''q''" "js ''201910010000''" "Str (js ''100'')"] by auto
  have pt: "page_tweets (Respond 200 (Inr sample_page1))
              = [\<lparr>text = js ''long  x'', created_at = js ''d1''\<rparr>,
                 \<lparr>text = js '' short'', created_at = js ''d2''\<rparr>]"
    using sample_page1_tweets
    by (simp add: page_tweets_def ok_def sample_page1_def del: push_items.simps)
  have "map_option outcome
          (search_loop (js ''tok'') (js ''u'') (js ''q'') (js ''201910010000'') (Str (js ''100''))
             (next_of (Respond 200 (Inr sample_page1)))
             ([] @ page_tweets (Respond 200 (Inr sample_page1)))
             [Respond 200 (Inr sample_page2)])
          = Some (Inr 3)"
    unfolding pt
    by (simp add: getTweetBatch_def Let_def ok_def sample_page2_def sample_third_def normalize_item_def
          selected_text_def selected_field_def)
  then have "map_option outcome
          (search_loop (js ''tok'') (js ''u'') (js ''q'') (js ''201910010000'') (Str (js ''100''))
             Null [] (batch_answers ?w))
          = Some (Inr 3)"
    unfolding b search_loop_continues[OF sample_page1_continues]
    by (simp add: option.map_comp comp_def)
  moreover from search_Some[OF run] sample_token[of "[Respond 200 (Inr sample_page1), Respond 200 (Inr sample_page2)]"]
  obtain l where
    "search_loop (js ''tok'') (js ''u'') (js ''q'') (js ''201910010000'') (Str (js ''100''))
             Null [] (batch_answers ?w) = Some l"
    "outcome r = (case write_answer ?w of Some e \<Rightarrow> Inl e | None \<Rightarrow> outcome l)"
    by auto
  ultimately have out: "outcome r = Inr 3" unfolding wa by simp
  from search_returns_count[OF run out] have "3 = length (run_tweets r)" by (rule conjunct1)
  with run out show ?thesis by simp
qed

section \<open>The result file read back\<close>

lemma files_after_append: "files_after (xs @ ys) fs = files_after ys (files_after xs fs)"
  by (induction xs fs rule: files_after.induct) simp_all

lemma files_after_quiet: "writes evs = [] \<Longrightarrow> files_after evs fs = fs"
  by (induction evs fs rule: files_after.induct) simp_all

lemma read_written:
  "JSON_stringify (tweets_value ts) = Some data \<Longrightarrow>
   readTweetFile path (writeFile path data fs) = Some (Inr (tweets_value ts))"
  by (simp add: readTweetFile_def readFile_def writeFile_def JSON_parse_stringify)

text \<open>
  C8. For every sequence of tweets, the array has a JSON text, and \<open>readTweetFile\<close> on
  a file that \<open>writeFile\<close> has filled with this text gives back the array: the same
  tweets (two sequences have the same array only when they are equal), in the same
  order. In particular, after a run of \<open>search\<close> whose write succeeds, the result file
  reads back as the array \<open>tweets\<close> of the run.
\<close>

theorem read_after_write:
  "(\<exists>data. JSON_stringify (tweets_value ts) = Some data \<and>
           readTweetFile path (writeFile path data fs) = Some (Inr (tweets_value ts))) \<and>
   ((tweets_value ts' = tweets_value ts) = (ts' = ts)) \<and>
   (\<forall>r. search w url query fromDate maxResults = Some r \<and> write_answer w = None \<longrightarrow>
        readTweetFile OUTFILE (files_after (trace r) fs) = Some (Inr (tweets_value (run_tweets r))))"
proof (intro conjI allI impI)
  obtain data where d: "JSON_stringify (tweets_value ts) = Some data"
    using stringify_tweets_Some by blast
  with read_written[OF d, where path=path and fs=fs]
  show "\<exists>data. JSON_stringify (tweets_value ts) = Some data \<and>
           readTweetFile path (writeFile path data fs) = Some (Inr (tweets_value ts))"
    by blast
next
  show "(tweets_value ts' = tweets_value ts) = (ts' = ts)" by (rule tweets_value_inj)
next
  fix r assume "search w url query fromDate maxResults = Some r \<and> write_answer w = None"
  then have run: "search w url query fromDate maxResults = Some r" by simp
  from search_Some[OF run] obtain earlier data where
    d: "JSON_stringify (tweets_value (run_tweets r)) = Some data" and
    t: "trace r = earlier @ [WriteFile OUTFILE data]" and q: "writes earlier = []"
    by blast
  have "files_after (trace r) fs = writeFile OUTFILE data fs"
    unfolding t by (simp add: files_after_append files_after_quiet[OF q])
  then show "readTweetFile OUTFILE (files_after (trace r) fs) = Some (Inr (tweets_value (run_tweets r)))"
    using read_written[OF d] by simp
qed

theorem read_after_write_witness:
  "\<exists>r. search (sample_world [Respond 200 (Inr sample_page1), Respond 200 (Inr sample_page2)])
           (js ''u'') (js ''q'') (js ''201910010000'') (Str (js ''100'')) = Some r \<and>
       readTweetFile OUTFILE (files_after (trace r) Map.empty) = Some (Inr (tweets_value (run_tweets r)))"
proof -
  let ?w = "sample_world [Respond 200 (Inr sample_page1), Respond 200 (Inr sample_page2)]"
  have b: "batch_answers ?w = [Respond 200 (Inr sample_page1), Respond 200 (Inr sample_page2)]"
    and wa: "write_answer ?w = None"
    by (simp_all add: sample_world_def)
  have "\<not> list_all continues (batch_answers ?w)" unfolding b by (simp add: sample_page2_stops)
  then obtain r where run: "search ?w (js ''u'') (js ''q'') (js ''201910010000'') (Str (js ''100'')) = Some r"
    using search_None_iff[of ?w "js ''u''" "js ''q''" "js ''201910010000''" "Str (js ''100'')"] by auto
  note all = read_after_write[where ts="[]" and ts'="[]" and path=OUTFILE and fs=Map.empty and w="?w"
      and url="js ''u''" and query="js ''q''" and fromDate="js ''201910010000''"
      and maxResults="Str (js ''100'')"]
  from all[THEN conjunct2, THEN conjunct2, rule_format, of r] run wa
  have "readTweetFile OUTFILE (files_after (trace r) Map.empty) = Some (Inr (tweets_value (run_tweets r)))"
    by simp
  with run show ?thesis by blast
qed

end
